theory Spec2Isabelle
  imports Main "HOL-Library.Sublist"
begin

section \<open>Values and revision objects\<close>

text \<open>
  A value that the source passes as \<open>down_revision\<close> or \<open>branch_labels\<close>:
  \<open>None\<close>, one string, or a tuple of strings.
\<close>

datatype pyval = PNone | PStr string | PTuple "string list"

text \<open>Python truthiness of such a value (\<open>not rev\<close>, \<open>if parent.down_revision\<close>).\<close>

fun truthy :: "pyval \<Rightarrow> bool" where
  "truthy PNone = False"
| "truthy (PStr s) = (s \<noteq> [])"
| "truthy (PTuple xs) = (xs \<noteq> [])"

text \<open>
  Modelled from the spec: \<open>util.to_tuple\<close> is not among the sources. The spec (3, 4.1)
  has parent ids normalised to none, a scalar or a tuple of many, and the tuple view of
  them has zero, one or many entries: \<open>None\<close> gives the default, a string the
  one-element tuple, a tuple itself.
\<close>

fun to_tuple :: "pyval \<Rightarrow> string list \<Rightarrow> string list" where
  "to_tuple PNone dflt = dflt"
| "to_tuple (PStr s) dflt = [s]"
| "to_tuple (PTuple xs) dflt = xs"

text \<open>\<open>tuple_rev_as_scalar\<close>: \<open>rev[0]\<close> of a one-character string is that string.\<close>

fun tuple_rev_as_scalar :: "pyval \<Rightarrow> pyval" where
  "tuple_rev_as_scalar PNone = PNone"
| "tuple_rev_as_scalar (PStr s) =
     (if s = [] then PNone else if length s = 1 then PStr [hd s] else PStr s)"
| "tuple_rev_as_scalar (PTuple xs) =
     (if xs = [] then PNone else if length xs = 1 then PStr (hd xs) else PTuple xs)"

text \<open>
  A \<open>Revision\<close> object. \<open>branch_labels\<close> is a Python set that is only united and
  tested for emptiness; \<open>nextrev\<close> is a frozenset that the descendant walk iterates, kept
  here as a duplicate-free list in insertion order (Python leaves that order open).
\<close>

record Revision =
  revision :: string
  down_revision :: pyval
  orig_branch_labels :: "string list"
  branch_labels :: "string set"
  nextrev :: "string list"

definition Revision_init :: "string \<Rightarrow> pyval \<Rightarrow> pyval \<Rightarrow> Revision" where
  "Revision_init rid down labels =
     \<lparr> revision = rid,
       down_revision = tuple_rev_as_scalar down,
       orig_branch_labels = to_tuple labels [],
       branch_labels = set (to_tuple labels []),
       nextrev = [] \<rparr>"

definition add_nextrev :: "Revision \<Rightarrow> string \<Rightarrow> Revision" where
  "add_nextrev r rid =
     r\<lparr>nextrev := (if rid \<in> set (nextrev r) then nextrev r else nextrev r @ [rid])\<rparr>"

definition down_revision_tuple :: "Revision \<Rightarrow> string list" where
  "down_revision_tuple r = to_tuple (down_revision r) []"

definition is_head :: "Revision \<Rightarrow> bool" where
  "is_head r = (nextrev r = [])"

definition is_base :: "Revision \<Rightarrow> bool" where
  "is_base r = (down_revision r = PNone)"

definition is_branch_point :: "Revision \<Rightarrow> bool" where
  "is_branch_point r = (length (nextrev r) > 1)"

definition is_merge_point :: "Revision \<Rightarrow> bool" where
  "is_merge_point r = (length (down_revision_tuple r) > 1)"

section \<open>The revision map\<close>

text \<open>
  Keys of the dictionary \<open>map_\<close>: strings (ids and branch labels), \<open>None\<close> and tuples
  (\<open>()\<close> is \<open>KTuple []\<close>). The dictionary is an association list in insertion order;
  its values are references to objects (positions in the producer's output), or \<open>None\<close>.
\<close>

datatype key = KNone | KStr string | KTuple "string list"

fun key_of :: "pyval \<Rightarrow> key" where
  "key_of PNone = KNone"
| "key_of (PStr s) = KStr s"
| "key_of (PTuple xs) = KTuple xs"

type_synonym dict = "(key \<times> nat option) list"

fun dict_set :: "dict \<Rightarrow> key \<Rightarrow> nat option \<Rightarrow> dict" where
  "dict_set [] k v = [(k, v)]"
| "dict_set ((k', v') # d) k v = (if k' = k then (k, v) # d else (k', v') # dict_set d k v)"

definition dict_has :: "dict \<Rightarrow> key \<Rightarrow> bool" where
  "dict_has d k = (map_of d k \<noteq> None)"

datatype ident = INone | IStr string | IColl "ident list"

datatype error =
    RevisionError string
  | RangeNotAncestorError ident ident
  | MultipleHeads "string list" string
  | ResolutionError string
  | KeyError key
  | AttributeError
  | TypeError

datatype warning =
    PresentMoreThanOnce string
  | NotPresent pyval string

record RevisionMap =
  objs :: "Revision list"
  rev_map :: dict
  heads :: "string list"
  bases :: "string list"

text \<open>\<open>OrderedSet.add\<close> and \<open>OrderedSet.discard\<close>.\<close>

definition oset_add :: "string list \<Rightarrow> string \<Rightarrow> string list" where
  "oset_add s x = (if x \<in> set s then s else s @ [x])"

definition oset_discard :: "string list \<Rightarrow> string \<Rightarrow> string list" where
  "oset_discard s x = filter (\<lambda>y. y \<noteq> x) s"

section \<open>Closure walks\<close>

text \<open>
  The \<open>while todo\<close> loop of \<open>_iterate_related_revisions\<close>: pop from the right, push
  the related objects to the right, yield. The loop runs forever on a cyclic graph, so
  it takes fuel; \<open>None\<close> is "did not return within the fuel".
\<close>

fun lookup_all :: "dict \<Rightarrow> string list \<Rightarrow> error + nat option list" where
  "lookup_all m [] = Inr []"
| "lookup_all m (k # ks) =
     (case map_of m (KStr k) of
        None \<Rightarrow> Inl (KeyError (KStr k))
      | Some v \<Rightarrow> (case lookup_all m ks of Inl e \<Rightarrow> Inl e | Inr vs \<Rightarrow> Inr (v # vs)))"

fun related_loop ::
  "nat \<Rightarrow> (Revision \<Rightarrow> string list) \<Rightarrow> Revision list \<Rightarrow> dict \<Rightarrow> nat option list \<Rightarrow>
     (error + nat list) option" where
  "related_loop n fn os m [] = Some (Inr [])"
| "related_loop 0 fn os m (t # ts) = None"
| "related_loop (Suc n) fn os m (t # ts) =
     (case last (t # ts) of
        None \<Rightarrow> Some (Inl AttributeError)
      | Some r \<Rightarrow>
          (case lookup_all m (fn (os ! r)) of
             Inl e \<Rightarrow> Some (Inl e)
           | Inr new \<Rightarrow>
               (case related_loop n fn os m (butlast (t # ts) @ new) of
                  None \<Rightarrow> None
                | Some (Inl e) \<Rightarrow> Some (Inl e)
                | Some (Inr ys) \<Rightarrow> Some (Inr (r # ys)))))"

definition overlap_message :: "string \<Rightarrow> string" where
  "overlap_message rid =
     ''Requested revision '' @ rid @ '' overlaps with other requested revisions''"

fun related_targets ::
  "nat \<Rightarrow> (Revision \<Rightarrow> string list) \<Rightarrow> Revision list \<Rightarrow> dict \<Rightarrow> bool \<Rightarrow>
     nat option list \<Rightarrow> nat option list \<Rightarrow> (error + nat list) option" where
  "related_targets n fn os m check targets [] = Some (Inr [])"
| "related_targets n fn os m check targets (t # ts) =
     (case related_loop n fn os m [t] of
        None \<Rightarrow> None
      | Some (Inl e) \<Rightarrow> Some (Inl e)
      | Some (Inr per_target) \<Rightarrow>
          if check \<and> (Some ` set per_target \<inter> set targets) - {t} \<noteq> {}
          then (case t of
                  None \<Rightarrow> Some (Inl AttributeError)
                | Some r \<Rightarrow> Some (Inl (RevisionError (overlap_message (revision (os ! r))))))
          else (case related_targets n fn os m check targets ts of
                  None \<Rightarrow> None
                | Some (Inl e) \<Rightarrow> Some (Inl e)
                | Some (Inr ys) \<Rightarrow> Some (Inr (per_target @ ys))))"

definition iterate_related_revisions ::
  "nat \<Rightarrow> (Revision \<Rightarrow> string list) \<Rightarrow> Revision list \<Rightarrow> dict \<Rightarrow> nat option list \<Rightarrow> bool \<Rightarrow>
     (error + nat list) option" where
  "iterate_related_revisions n fn os m targets check =
     related_targets n fn os m check targets targets"

definition get_descendant_nodes ::
  "nat \<Rightarrow> Revision list \<Rightarrow> dict \<Rightarrow> nat option list \<Rightarrow> bool \<Rightarrow> (error + nat list) option" where
  "get_descendant_nodes n os m targets check =
     iterate_related_revisions n nextrev os m targets check"

definition get_ancestor_nodes ::
  "nat \<Rightarrow> Revision list \<Rightarrow> dict \<Rightarrow> nat option list \<Rightarrow> bool \<Rightarrow> (error + nat list) option" where
  "get_ancestor_nodes n os m targets check =
     iterate_related_revisions n down_revision_tuple os m targets check"

section \<open>Building the map\<close>

text \<open>
  The first loop of \<open>_revision_map\<close>, over the producer's output. The object in
  position \<open>i\<close> of that output is referred to as \<open>i\<close>. \<open>has_branch_labels\<close> is a
  Python set of objects, iterated later; it is kept in insertion order.
\<close>

record index_state =
  ix_map :: dict
  ix_heads :: "string list"
  ix_bases :: "string list"
  ix_labelled :: "nat list"
  ix_warnings :: "warning list"

fun index_revisions :: "nat \<Rightarrow> Revision list \<Rightarrow> index_state \<Rightarrow> index_state" where
  "index_revisions i [] st = st"
| "index_revisions i (r # rs) st =
     index_revisions (Suc i) rs
       \<lparr> ix_map = dict_set (ix_map st) (KStr (revision r)) (Some i),
         ix_heads = oset_add (ix_heads st) (revision r),
         ix_bases = (if is_base r then ix_bases st @ [revision r] else ix_bases st),
         ix_labelled = (if branch_labels r \<noteq> {} then ix_labelled st @ [i] else ix_labelled st),
         ix_warnings =
           (if dict_has (ix_map st) (KStr (revision r))
            then ix_warnings st @ [PresentMoreThanOnce (revision r)]
            else ix_warnings st) \<rparr>"

text \<open>
  The second loop: for every object in \<open>map_.values()\<close> and every parent id, warn when
  the id is not a key, then read \<open>map_[downrev]\<close> all the same (a \<open>KeyError\<close> when it is
  not a key), add the child to the parent and discard the parent from the heads.
  A failure carries the warnings emitted before it.
\<close>

record link_state =
  ln_objs :: "Revision list"
  ln_heads :: "string list"
  ln_warnings :: "warning list"

fun link_downrevs ::
  "dict \<Rightarrow> nat \<Rightarrow> string list \<Rightarrow> link_state \<Rightarrow> (error \<times> warning list) + link_state" where
  "link_downrevs m i [] st = Inr st"
| "link_downrevs m i (downrev # ds) st =
     (let ws = (if \<not> dict_has m (KStr downrev)
                then ln_warnings st @
                       [NotPresent (down_revision (ln_objs st ! i)) (revision (ln_objs st ! i))]
                else ln_warnings st)
      in case map_of m (KStr downrev) of
           None \<Rightarrow> Inl (KeyError (KStr downrev), ws)
         | Some None \<Rightarrow> Inl (AttributeError, ws)
         | Some (Some j) \<Rightarrow>
             link_downrevs m i ds
               \<lparr> ln_objs = (ln_objs st)[j := add_nextrev (ln_objs st ! j) (revision (ln_objs st ! i))],
                 ln_heads = oset_discard (ln_heads st) downrev,
                 ln_warnings = ws \<rparr>)"

fun link_revisions ::
  "dict \<Rightarrow> nat option list \<Rightarrow> link_state \<Rightarrow> (error \<times> warning list) + link_state" where
  "link_revisions m [] st = Inr st"
| "link_revisions m (None # vs) st = Inl (AttributeError, ln_warnings st)"
| "link_revisions m (Some i # vs) st =
     (case link_downrevs m i (down_revision_tuple (ln_objs st ! i)) st of
        Inl e \<Rightarrow> Inl e
      | Inr st' \<Rightarrow> link_revisions m vs st')"

text \<open>\<open>_add_branches\<close>: the labels become keys, then the walk forward and the walk back.\<close>

definition branch_name_message :: "string \<Rightarrow> string \<Rightarrow> string \<Rightarrow> string" where
  "branch_name_message branch_label rid other =
     ''Branch name '' @ [CHR 0x27] @ branch_label @ [CHR 0x27] @ '' in revision '' @ rid @
     '' already used by revision '' @ other"

fun register_labels :: "Revision list \<Rightarrow> dict \<Rightarrow> nat \<Rightarrow> string list \<Rightarrow> error + dict" where
  "register_labels os m r [] = Inr m"
| "register_labels os m r (branch_label # ls) =
     (case map_of m (KStr branch_label) of
        Some None \<Rightarrow> Inl AttributeError
      | Some (Some j) \<Rightarrow>
          Inl (RevisionError
                 (branch_name_message branch_label (revision (os ! r)) (revision (os ! j))))
      | None \<Rightarrow> register_labels os (dict_set m (KStr branch_label) (Some r)) r ls)"

definition update_labels :: "Revision list \<Rightarrow> nat \<Rightarrow> nat \<Rightarrow> Revision list" where
  "update_labels os node r =
     os[node := (os ! node)\<lparr>branch_labels := branch_labels (os ! node) \<union> branch_labels (os ! r)\<rparr>]"

fun walk_back ::
  "nat \<Rightarrow> Revision list \<Rightarrow> dict \<Rightarrow> nat \<Rightarrow> nat option \<Rightarrow> (error + Revision list) option" where
  "walk_back n os m r None = Some (Inr os)"
| "walk_back 0 os m r (Some p) = None"
| "walk_back (Suc n) os m r (Some p) =
     (if is_branch_point (os ! p) \<or> is_merge_point (os ! p) then Some (Inr os)
      else if truthy (down_revision (os ! p))
      then (case map_of m (key_of (down_revision (os ! p))) of
              None \<Rightarrow> Some (Inl (KeyError (key_of (down_revision (os ! p)))))
            | Some v \<Rightarrow> walk_back n (update_labels os p r) m r v)
      else Some (Inr (update_labels os p r)))"

definition add_branches ::
  "nat \<Rightarrow> Revision list \<Rightarrow> dict \<Rightarrow> nat \<Rightarrow> (error + Revision list \<times> dict) option" where
  "add_branches n os m r =
     (if branch_labels (os ! r) = {} then Some (Inr (os, m))
      else case register_labels os m r (orig_branch_labels (os ! r)) of
             Inl e \<Rightarrow> Some (Inl e)
           | Inr m' \<Rightarrow>
               (case get_descendant_nodes n os m' [Some r] False of
                  None \<Rightarrow> None
                | Some (Inl e) \<Rightarrow> Some (Inl e)
                | Some (Inr nodes) \<Rightarrow>
                    (case walk_back n (fold (\<lambda>node os'. update_labels os' node r) nodes os) m' r
                            (Some (last nodes)) of
                       None \<Rightarrow> None
                     | Some (Inl e) \<Rightarrow> Some (Inl e)
                     | Some (Inr os') \<Rightarrow> Some (Inr (os', m')))))"

fun add_all_branches ::
  "nat \<Rightarrow> Revision list \<Rightarrow> dict \<Rightarrow> nat list \<Rightarrow> (error + Revision list \<times> dict) option" where
  "add_all_branches n os m [] = Some (Inr (os, m))"
| "add_all_branches n os m (r # rs) =
     (case add_branches n os m r of
        None \<Rightarrow> None
      | Some (Inl e) \<Rightarrow> Some (Inl e)
      | Some (Inr (os', m')) \<Rightarrow> add_all_branches n os' m' rs)"

text \<open>
  \<open>_revision_map\<close>, for the producer's output \<open>revs\<close>. The result is the built map with
  the warnings emitted, or the exception with the warnings emitted before it.
\<close>

definition revision_map ::
  "nat \<Rightarrow> Revision list \<Rightarrow> ((error \<times> warning list) + RevisionMap \<times> warning list) option" where
  "revision_map n revs =
     (let ix = index_revisions 0 revs
                 \<lparr> ix_map = [], ix_heads = [], ix_bases = [], ix_labelled = [], ix_warnings = [] \<rparr>
      in case link_revisions (ix_map ix) (map snd (ix_map ix))
                \<lparr> ln_objs = revs, ln_heads = ix_heads ix, ln_warnings = ix_warnings ix \<rparr> of
           Inl e \<Rightarrow> Some (Inl e)
         | Inr ln \<Rightarrow>
             (case add_all_branches n (ln_objs ln)
                     (dict_set (dict_set (ix_map ix) KNone None) (KTuple []) None)
                     (ix_labelled ix) of
                None \<Rightarrow> None
              | Some (Inl e) \<Rightarrow> Some (Inl (e, ln_warnings ln))
              | Some (Inr (os, m)) \<Rightarrow>
                  Some (Inr (\<lparr> objs = os, rev_map = m, heads = ln_heads ln, bases = ix_bases ix \<rparr>,
                             ln_warnings ln))))"

section \<open>Resolving identifiers\<close>

text \<open>
  A query returns a value, raises, or does not return: \<open>(error + 'a) option\<close>.
  The functions below call one another in a cycle and call the closure walks, so each
  takes the fuel and passes on one unit less; fuel bounds the loops and the depth of
  the calls.
\<close>

abbreviation ok :: "'a \<Rightarrow> (error + 'a) option" where
  "ok v \<equiv> Some (Inr v)"

abbreviation raise :: "error \<Rightarrow> (error + 'a) option" where
  "raise e \<equiv> Some (Inl e)"

definition rbind :: "(error + 'a) option \<Rightarrow> ('a \<Rightarrow> (error + 'b) option) \<Rightarrow> (error + 'b) option" where
  "rbind x f = (case x of None \<Rightarrow> None | Some (Inl e) \<Rightarrow> Some (Inl e) | Some (Inr v) \<Rightarrow> f v)"

fun rmap :: "('a \<Rightarrow> (error + 'b) option) \<Rightarrow> 'a list \<Rightarrow> (error + 'b list) option" where
  "rmap f [] = ok []"
| "rmap f (x # xs) = rbind (f x) (\<lambda>y. rbind (rmap f xs) (\<lambda>ys. ok (y # ys)))"

fun rfilter :: "('a \<Rightarrow> (error + bool) option) \<Rightarrow> 'a list \<Rightarrow> (error + 'a list) option" where
  "rfilter f [] = ok []"
| "rfilter f (x # xs) =
     rbind (f x) (\<lambda>b. rbind (rfilter f xs) (\<lambda>ys. ok (if b then x # ys else ys)))"

lemma rbind_cong [fundef_cong]:
  "x = y \<Longrightarrow> (\<And>v. y = Some (Inr v) \<Longrightarrow> f v = g v) \<Longrightarrow> rbind x f = rbind y g"
  by (auto simp: rbind_def split: option.splits sum.splits)

lemma rmap_cong [fundef_cong]:
  "xs = ys \<Longrightarrow> (\<And>x. x \<in> set ys \<Longrightarrow> f x = g x) \<Longrightarrow> rmap f xs = rmap g ys"
  by (induction ys arbitrary: xs) auto

lemma rfilter_cong [fundef_cong]:
  "xs = ys \<Longrightarrow> (\<And>x. x \<in> set ys \<Longrightarrow> f x = g x) \<Longrightarrow> rfilter f xs = rfilter g ys"
  by (induction ys arbitrary: xs) auto

text \<open>\<open>if branch_label:\<close> holds for a string that is not empty.\<close>

fun truthy_label :: "string option \<Rightarrow> string option" where
  "truthy_label None = None"
| "truthy_label (Some b) = (if b = [] then None else Some b)"

text \<open>\<open>branch_label, id_ = id_.split('@', 1)\<close> when the string contains \<open>@\<close>.\<close>

fun split_branch :: "string option \<Rightarrow> string option \<times> string option" where
  "split_branch None = (None, None)"
| "split_branch (Some s) =
     (if CHR ''@'' \<in> set s
      then (Some (takeWhile (\<lambda>c. c \<noteq> CHR ''@'') s), Some (tl (dropWhile (\<lambda>c. c \<noteq> CHR ''@'') s)))
      else (None, Some s))"

text \<open>The second argument of \<open>_shares_lineage\<close>: one string, or a list.\<close>

datatype tests = TStr string | TList "string option list"

fun tests_empty :: "tests \<Rightarrow> bool" where
  "tests_empty (TStr s) = (s = [])"
| "tests_empty (TList xs) = (xs = [])"

fun tests_tuple :: "tests \<Rightarrow> string option list" where
  "tests_tuple (TStr s) = [Some s]"
| "tests_tuple (TList xs) = xs"

fun join :: "string \<Rightarrow> string list \<Rightarrow> string" where
  "join sep [] = []"
| "join sep [x] = x"
| "join sep (x # y # xs) = x @ sep @ join sep (y # xs)"

definition quoted :: "string \<Rightarrow> string" where
  "quoted s = [CHR 0x27] @ s @ [CHR 0x27]"

definition no_such_message :: "string \<Rightarrow> string" where
  "no_such_message resolved_id = ''No such revision or branch '' @ quoted resolved_id"

definition multiple_message :: "string \<Rightarrow> string list \<Rightarrow> string" where
  "multiple_message resolved_id revs =
     ''Multiple revisions start with '' @ quoted resolved_id @ '': '' @
     join '', '' (map quoted (take 3 revs)) @ ''...''"

definition not_member_message :: "string \<Rightarrow> string \<Rightarrow> string" where
  "not_member_message rid check_branch =
     ''Revision '' @ rid @ '' is not a member of branch '' @ quoted check_branch"

definition no_such_branch_message :: "string \<Rightarrow> string" where
  "no_such_branch_message branch_label = ''No such branch: '' @ quoted branch_label"

text \<open>
  \<open>[x for x in self._revision_map if x and x.startswith(resolved_id)]\<close>, over the keys
  in their order. \<open>None\<close> and \<open>()\<close> are falsy; a non-empty tuple has no \<open>startswith\<close>,
  and \<open>startswith(None)\<close> is a type error.
\<close>

fun partial_lookup :: "key list \<Rightarrow> string option \<Rightarrow> error + string list" where
  "partial_lookup [] resolved_id = Inr []"
| "partial_lookup (KNone # ks) resolved_id = partial_lookup ks resolved_id"
| "partial_lookup (KTuple t # ks) resolved_id =
     (if t = [] then partial_lookup ks resolved_id else Inl AttributeError)"
| "partial_lookup (KStr x # ks) resolved_id =
     (if x = [] then partial_lookup ks resolved_id
      else case resolved_id of
             None \<Rightarrow> Inl TypeError
           | Some s \<Rightarrow>
               (case partial_lookup ks resolved_id of
                  Inl e \<Rightarrow> Inl e
                | Inr xs \<Rightarrow> Inr (if prefix s x then x # xs else xs)))"

fun ident_key :: "string option \<Rightarrow> key" where
  "ident_key None = KNone"
| "ident_key (Some s) = KStr s"

fun of_sum :: "error + 'a \<Rightarrow> (error + 'a) option" where
  "of_sum x = Some x"

function get_current_head :: "nat \<Rightarrow> RevisionMap \<Rightarrow> string option \<Rightarrow> (error + string option) option"
and filter_for_lineage :: "nat \<Rightarrow> RevisionMap \<Rightarrow> string list \<Rightarrow> string \<Rightarrow> (error + string list) option"
and shares_lineage :: "nat \<Rightarrow> RevisionMap \<Rightarrow> string \<Rightarrow> tests \<Rightarrow> (error + bool) option"
and revision_for_ident ::
  "nat \<Rightarrow> RevisionMap \<Rightarrow> string option \<Rightarrow> string option \<Rightarrow> (error + nat option) option"
and resolve_branch :: "nat \<Rightarrow> RevisionMap \<Rightarrow> string \<Rightarrow> (error + nat option) option"
and resolve_revision_number ::
  "nat \<Rightarrow> RevisionMap \<Rightarrow> string option \<Rightarrow> (error + string option list \<times> string option) option"
where
  "get_current_head 0 rm branch_label = None"
| "get_current_head (Suc n) rm branch_label =
     rbind (case truthy_label branch_label of
              None \<Rightarrow> ok (heads rm)
            | Some b \<Rightarrow> filter_for_lineage n rm (heads rm) b)
       (\<lambda>current_heads.
          if length current_heads > 1
          then raise (MultipleHeads current_heads
                        (case truthy_label branch_label of
                           None \<Rightarrow> ''head'' | Some b \<Rightarrow> b @ ''@head''))
          else if current_heads \<noteq> [] then ok (Some (hd current_heads))
          else ok None)"
| "filter_for_lineage 0 rm targets check_against = None"
| "filter_for_lineage (Suc n) rm targets check_against =
     rbind (resolve_revision_number n rm (Some check_against))
       (\<lambda>(ids, branch_label).
          rfilter
            (\<lambda>tg. shares_lineage n rm tg
                    (TList ((case truthy_label branch_label of None \<Rightarrow> [] | Some b \<Rightarrow> [Some b]) @
                            (if ids \<noteq> [] then [hd ids] else []))))
            targets)"
| "shares_lineage 0 rm target test_against_revs = None"
| "shares_lineage (Suc n) rm target test_against_revs =
     (if tests_empty test_against_revs then ok True
      else
        rbind (revision_for_ident n rm (Some target) None) (\<lambda>target'.
        rbind (rmap (\<lambda>t. revision_for_ident n rm t None) (tests_tuple test_against_revs))
          (\<lambda>test_revs.
        rbind (get_descendant_nodes n (objs rm) (rev_map rm) [target'] False) (\<lambda>ds.
        rbind (get_ancestor_nodes n (objs rm) (rev_map rm) [target'] False) (\<lambda>as.
          ok (Some ` (set ds \<union> set as) \<inter> set test_revs \<noteq> {}))))))"
| "revision_for_ident 0 rm resolved_id check_branch = None"
| "revision_for_ident (Suc n) rm resolved_id check_branch =
     rbind (case truthy_label check_branch of
              None \<Rightarrow> ok None
            | Some cb \<Rightarrow> resolve_branch n rm cb) (\<lambda>branch_rev.
     rbind (case map_of (rev_map rm) (ident_key resolved_id) of
              Some v \<Rightarrow> ok v
            | None \<Rightarrow>
                rbind (of_sum (partial_lookup (map fst (rev_map rm)) resolved_id)) (\<lambda>revs.
                rbind (case (branch_rev, check_branch) of
                         (None, _) \<Rightarrow> ok revs
                       | (Some _, None) \<Rightarrow> raise TypeError
                       | (Some _, Some cb) \<Rightarrow> filter_for_lineage n rm revs cb) (\<lambda>revs.
                  if revs = []
                  then raise (ResolutionError
                                (no_such_message (case resolved_id of None \<Rightarrow> ''None'' | Some s \<Rightarrow> s)))
                  else if length revs > 1
                  then raise (ResolutionError
                                (multiple_message
                                   (case resolved_id of None \<Rightarrow> ''None'' | Some s \<Rightarrow> s) revs))
                  else (case map_of (rev_map rm) (KStr (hd revs)) of
                          None \<Rightarrow> raise (KeyError (KStr (hd revs)))
                        | Some v \<Rightarrow> ok v)))) (\<lambda>revision'.
       case (truthy_label check_branch, revision') of
         (Some cb, Some r) \<Rightarrow>
           (case branch_rev of
              None \<Rightarrow> raise AttributeError
            | Some b \<Rightarrow>
                rbind (shares_lineage n rm (revision (objs rm ! r)) (TStr (revision (objs rm ! b))))
                  (\<lambda>sh. if \<not> sh
                        then raise (ResolutionError
                                      (not_member_message (revision (objs rm ! r)) cb))
                        else ok revision'))
       | _ \<Rightarrow> ok revision'))"
| "resolve_branch 0 rm branch_label = None"
| "resolve_branch (Suc n) rm branch_label =
     (case map_of (rev_map rm) (KStr branch_label) of
        Some v \<Rightarrow> ok v
      | None \<Rightarrow>
          (case revision_for_ident n rm (Some branch_label) None of
             None \<Rightarrow> None
           | Some (Inl (ResolutionError msg)) \<Rightarrow>
               raise (ResolutionError (no_such_branch_message branch_label))
           | Some (Inl e) \<Rightarrow> raise e
           | Some (Inr v) \<Rightarrow> ok v))"
| "resolve_revision_number 0 rm id0 = None"
| "resolve_revision_number (Suc n) rm id0 =
     (case split_branch id0 of
        (branch_label, id') \<Rightarrow>
          if id' = Some ''heads''
          then (case truthy_label branch_label of
                  Some b \<Rightarrow>
                    rbind (filter_for_lineage n rm (heads rm) b)
                      (\<lambda>hs. ok (map Some hs, branch_label))
                | None \<Rightarrow> ok (map Some (heads rm), branch_label))
          else if id' = Some ''head''
          then rbind (get_current_head n rm branch_label) (\<lambda>h. ok ([h], branch_label))
          else if id' = Some ''base'' \<or> id' = None then ok ([], branch_label)
          else ok ([id'], branch_label))"

  by pat_completeness auto

termination
  by (relation "measure (case_sum (case_sum fst (case_sum fst fst))
                                  (case_sum fst (case_sum fst fst)))") simp_all

definition get_base_revisions ::
  "nat \<Rightarrow> RevisionMap \<Rightarrow> string \<Rightarrow> (error + string list) option" where
  "get_base_revisions n rm identifier = filter_for_lineage n rm (bases rm) identifier"

fun get_revisions :: "nat \<Rightarrow> RevisionMap \<Rightarrow> ident \<Rightarrow> (error + nat option list) option" where
  "get_revisions n rm (IColl ids) =
     rbind (rmap (get_revisions n rm) ids) (\<lambda>rs. ok (concat rs))"
| "get_revisions n rm INone =
     rbind (resolve_revision_number n rm None)
       (\<lambda>(resolved_id, branch_label).
          rmap (\<lambda>rev_id. revision_for_ident n rm rev_id branch_label) resolved_id)"
| "get_revisions n rm (IStr s) =
     rbind (resolve_revision_number n rm (Some s))
       (\<lambda>(resolved_id, branch_label).
          rmap (\<lambda>rev_id. revision_for_ident n rm rev_id branch_label) resolved_id)"

section \<open>Iterating a range\<close>

text \<open>
  \<open>_relative_destination = re.compile(r'(?:(.+?)@)?((?:\+|-)\d+)')\<close>, applied with
  \<open>match\<close> (anchored at the start only). The optional group is tried first; its
  \<open>.+?\<close> grows one character at a time (any character but a newline) until an \<open>@\<close>
  followed by a signed number is found. The result is group 1 and \<open>int(group 2)\<close>.
\<close>

definition is_digit :: "char \<Rightarrow> bool" where
  "is_digit c = (c \<in> set ''0123456789'')"

definition int_of_digits :: "string \<Rightarrow> int" where
  "int_of_digits ds = foldl (\<lambda>acc c. 10 * acc + (int (of_char c) - 48)) 0 ds"

fun match_signed :: "string \<Rightarrow> int option" where
  "match_signed [] = None"
| "match_signed (c # cs) =
     (if (c = CHR ''+'' \<or> c = CHR ''-'') \<and> takeWhile is_digit cs \<noteq> []
      then Some ((if c = CHR ''-'' then -1 else 1) * int_of_digits (takeWhile is_digit cs))
      else None)"

fun match_branch :: "string \<Rightarrow> string \<Rightarrow> (string \<times> int) option" where
  "match_branch pre [] = None"
| "match_branch pre (c # cs) =
     (case (if pre \<noteq> [] \<and> c = CHR ''@'' then match_signed cs else None) of
        Some rel \<Rightarrow> Some (pre, rel)
      | None \<Rightarrow> if c = CHR 0x0A then None else match_branch (pre @ [c]) cs)"

definition relative_destination :: "string \<Rightarrow> (string option \<times> int) option" where
  "relative_destination s =
     (case match_branch [] s of
        Some (b, rel) \<Rightarrow> Some (Some b, rel)
      | None \<Rightarrow> (case match_signed s of Some rel \<Rightarrow> Some (None, rel) | None \<Rightarrow> None))"

text \<open>Python slices \<open>revs[k:]\<close> and \<open>revs[0:k]\<close> for any integer \<open>k\<close>.\<close>

definition slice_index :: "'a list \<Rightarrow> int \<Rightarrow> nat" where
  "slice_index xs k =
     (if k < 0 then nat (max (int (length xs) + k) 0) else min (nat k) (length xs))"

definition slice_from :: "'a list \<Rightarrow> int \<Rightarrow> 'a list" where
  "slice_from xs k = drop (slice_index xs k) xs"

definition slice_to :: "'a list \<Rightarrow> int \<Rightarrow> 'a list" where
  "slice_to xs k = take (slice_index xs k) xs"

fun str_nat :: "nat \<Rightarrow> string" where
  "str_nat n =
     (if n < 10 then [''0123456789'' ! n]
      else str_nat (n div 10) @ [''0123456789'' ! (n mod 10)])"

definition relative_message :: "string \<Rightarrow> int \<Rightarrow> string" where
  "relative_message bound relative =
     ''Relative revision '' @ bound @ '' didn'' @ [CHR 0x27] @ ''t produce '' @
     str_nat (nat (abs relative)) @ '' migrations''"

text \<open>
  The \<open>stop\<close> set of \<open>_iterate_revisions\<close> holds objects (the lowers and their
  ancestors) and strings (the ids of branch endpoints); the loop tests strings only.
\<close>

datatype stop_elem = SObj "nat option" | SId string

fun has_candidate_parent :: "dict \<Rightarrow> nat list \<Rightarrow> string list \<Rightarrow> error + bool" where
  "has_candidate_parent m candidate_lowers [] = Inr False"
| "has_candidate_parent m candidate_lowers (downrev # ds) =
     (case map_of m (KStr downrev) of
        None \<Rightarrow> Inl (KeyError (KStr downrev))
      | Some v \<Rightarrow>
          if v \<in> Some ` set candidate_lowers then Inr True
          else has_candidate_parent m candidate_lowers ds)"

fun base_lowers_of :: "Revision list \<Rightarrow> dict \<Rightarrow> nat list \<Rightarrow> nat list \<Rightarrow> error + nat list" where
  "base_lowers_of os m candidate_lowers [] = Inr []"
| "base_lowers_of os m candidate_lowers (r # rs) =
     (case has_candidate_parent m candidate_lowers (down_revision_tuple (os ! r)) of
        Inl e \<Rightarrow> Inl e
      | Inr b \<Rightarrow>
          (case base_lowers_of os m candidate_lowers rs of
             Inl e \<Rightarrow> Inl e
           | Inr bs \<Rightarrow> Inr (if b then bs else r # bs)))"

fun revisions_of :: "Revision list \<Rightarrow> nat option list \<Rightarrow> error + string list" where
  "revisions_of os [] = Inr []"
| "revisions_of os (None # rs) = Inl AttributeError"
| "revisions_of os (Some r # rs) =
     (case revisions_of os rs of Inl e \<Rightarrow> Inl e | Inr xs \<Rightarrow> Inr (revision (os ! r) # xs))"

fun endpoints_of :: "Revision list \<Rightarrow> dict \<Rightarrow> string list \<Rightarrow> string list \<Rightarrow> error + string list" where
  "endpoints_of os m total_space [] = Inr []"
| "endpoints_of os m total_space (x # xs) =
     (case map_of m (KStr x) of
        None \<Rightarrow> Inl (KeyError (KStr x))
      | Some None \<Rightarrow> Inl AttributeError
      | Some (Some r) \<Rightarrow>
          (case endpoints_of os m total_space xs of
             Inl e \<Rightarrow> Inl e
           | Inr es \<Rightarrow>
               Inr (if is_branch_point (os ! r) \<and>
                       length (remdups (filter (\<lambda>c. c \<in> set total_space) (nextrev (os ! r)))) > 1
                    then revision (os ! r) # es else es)))"

fun initial_todo :: "Revision list \<Rightarrow> string list \<Rightarrow> nat option list \<Rightarrow> error + nat option list" where
  "initial_todo os total_space [] = Inr []"
| "initial_todo os total_space (None # rs) = Inl AttributeError"
| "initial_todo os total_space (Some r # rs) =
     (case initial_todo os total_space rs of
        Inl e \<Rightarrow> Inl e
      | Inr ts \<Rightarrow> Inr (if revision (os ! r) \<in> set total_space then Some r # ts else ts))"

text \<open>
  The \<open>while todo\<close> loop of \<open>_iterate_revisions\<close>; the result is the list of the
  objects yielded, in order.
\<close>

fun iterate_loop ::
  "nat \<Rightarrow> Revision list \<Rightarrow> dict \<Rightarrow> string list \<Rightarrow> string list \<Rightarrow> nat option list \<Rightarrow> bool \<Rightarrow>
     nat option list \<Rightarrow> stop_elem set \<Rightarrow> (error + nat list) option" where
  "iterate_loop n os m total_space branch_endpoints requested_lowers inclusive [] stop = ok []"
| "iterate_loop 0 os m total_space branch_endpoints requested_lowers inclusive (t # ts) stop = None"
| "iterate_loop (Suc n) os m total_space branch_endpoints requested_lowers inclusive (t # ts) stop =
     rbind (of_sum (revisions_of os (t # ts))) (\<lambda>todo_ids.
       case t of
         None \<Rightarrow> raise AttributeError
       | Some r \<Rightarrow>
           rbind (of_sum (lookup_all m
                    (filter (\<lambda>downrev. downrev \<notin> set branch_endpoints \<and>
                                       SId downrev \<notin> stop \<union> SId ` (set todo_ids \<inter> set branch_endpoints) \<and>
                                       downrev \<in> set total_space)
                       (rev (down_revision_tuple (os ! r)))))) (\<lambda>front.
           rbind (of_sum (lookup_all m
                    (filter (\<lambda>downrev. downrev \<in> set branch_endpoints \<and>
                                       SId downrev \<notin> stop \<union> SId ` (set todo_ids \<inter> set branch_endpoints) \<and>
                                       downrev \<in> set total_space)
                       (down_revision_tuple (os ! r))))) (\<lambda>back.
           rbind (iterate_loop n os m total_space branch_endpoints requested_lowers inclusive
                    (rev front @ ts @ back)
                    (stop \<union> SId ` (set todo_ids \<inter> set branch_endpoints))) (\<lambda>ys.
             ok (if \<not> inclusive \<and> Some r \<in> set requested_lowers then ys else r # ys)))))"

text \<open>The choice of the lower boundary in \<open>_iterate_revisions\<close>.\<close>

definition lowers_of ::
  "nat \<Rightarrow> RevisionMap \<Rightarrow> ident \<Rightarrow> bool \<Rightarrow> nat option list \<Rightarrow> nat list \<Rightarrow>
     (error + nat option list) option" where
  "lowers_of n rm lower implicit_base requested_lowers upper_ancestors =
     (if (case lower of IStr l \<Rightarrow> suffix ''@base'' l | _ \<Rightarrow> False)
      then rbind (get_base_revisions n rm (case lower of IStr l \<Rightarrow> l | _ \<Rightarrow> []))
             (\<lambda>bs. get_revisions n rm (IColl (map IStr bs)))
      else if implicit_base \<and> requested_lowers \<noteq> []
      then
        rbind (get_ancestor_nodes n (objs rm) (rev_map rm) requested_lowers False) (\<lambda>lower_ancestors.
        rbind (get_descendant_nodes n (objs rm) (rev_map rm) requested_lowers False) (\<lambda>lower_descendants.
        rbind (of_sum (base_lowers_of (objs rm) (rev_map rm)
                 (filter (\<lambda>r. r \<notin> set lower_ancestors \<and> r \<notin> set lower_descendants)
                    (remdups upper_ancestors))
                 (filter (\<lambda>r. r \<notin> set lower_ancestors \<and> r \<notin> set lower_descendants)
                    (remdups upper_ancestors)))) (\<lambda>base_lowers.
          ok (remdups (map Some base_lowers @ requested_lowers)))))
      else if implicit_base
      then rbind (get_revisions n rm (IColl (map IStr (bases rm))))
             (\<lambda>base_lowers. ok (remdups (base_lowers @ requested_lowers)))
      else if requested_lowers = []
      then rbind (get_revisions n rm (IColl (map IStr (bases rm)))) (\<lambda>bs. ok (remdups bs))
      else ok requested_lowers)"

text \<open>
  \<open>_iterate_revisions\<close>, named \<open>iterate_revisions_impl\<close> here. The source is a
  generator; the model gives what consuming it to the end gives.
\<close>

definition total_space_of :: "Revision list \<Rightarrow> nat list \<Rightarrow> nat list \<Rightarrow> string list" where
  "total_space_of os upper_ancestors lower_descendants =
     remdups (filter (\<lambda>x. x \<in> set (map (\<lambda>r. revision (os ! r)) lower_descendants))
                (map (\<lambda>r. revision (os ! r)) upper_ancestors))"

definition iterate_revisions_impl ::
  "nat \<Rightarrow> RevisionMap \<Rightarrow> ident \<Rightarrow> ident \<Rightarrow> bool \<Rightarrow> bool \<Rightarrow> (error + nat list) option" where
  "iterate_revisions_impl n rm upper lower inclusive implicit_base =
     rbind (get_revisions n rm lower) (\<lambda>requested_lowers.
     rbind (get_revisions n rm upper) (\<lambda>uppers.
     rbind (get_ancestor_nodes n (objs rm) (rev_map rm) uppers True) (\<lambda>upper_ancestors.
     rbind (lowers_of n rm lower implicit_base requested_lowers upper_ancestors) (\<lambda>lowers.
     rbind (get_descendant_nodes n (objs rm) (rev_map rm) lowers True) (\<lambda>lower_descendants.
       if total_space_of (objs rm) upper_ancestors lower_descendants = []
       then raise (RangeNotAncestorError lower upper)
       else
         rbind (of_sum (endpoints_of (objs rm) (rev_map rm)
                  (total_space_of (objs rm) upper_ancestors lower_descendants)
                  (total_space_of (objs rm) upper_ancestors lower_descendants))) (\<lambda>branch_endpoints.
         rbind (of_sum (initial_todo (objs rm)
                  (total_space_of (objs rm) upper_ancestors lower_descendants) uppers)) (\<lambda>todo.
         rbind (if implicit_base
                then get_ancestor_nodes n (objs rm) (rev_map rm) requested_lowers False
                else ok []) (\<lambda>lower_ancestors.
           iterate_loop n (objs rm) (rev_map rm)
             (total_space_of (objs rm) upper_ancestors lower_descendants)
             branch_endpoints requested_lowers inclusive todo
             (SObj ` set lowers \<union> SObj ` Some ` set lower_ancestors)))))))))"

definition iterate_revisions ::
  "nat \<Rightarrow> RevisionMap \<Rightarrow> ident \<Rightarrow> ident \<Rightarrow> bool \<Rightarrow> bool \<Rightarrow> (error + nat list) option" where
  "iterate_revisions n rm upper lower implicit_base inclusive =
     (case (case upper of IStr u \<Rightarrow> map_option (Pair u) (relative_destination u) | _ \<Rightarrow> None) of
        Some (u, branch_label, relative) \<Rightarrow>
          rbind (iterate_revisions_impl n rm
                   (IStr (case branch_label of None \<Rightarrow> ''head'' | Some b \<Rightarrow> b @ ''@head''))
                   lower inclusive implicit_base) (\<lambda>revs.
            if int (length (slice_from revs (- relative - (if inclusive then 1 else 0)))) \<noteq>
                 abs relative + (if inclusive then 1 else 0)
            then raise (RevisionError (relative_message u relative))
            else ok (slice_from revs (- relative - (if inclusive then 1 else 0))))
      | None \<Rightarrow>
          (case (case lower of IStr l \<Rightarrow> map_option (Pair l) (relative_destination l) | _ \<Rightarrow> None) of
             Some (l, branch_label, relative) \<Rightarrow>
               rbind (iterate_revisions_impl n rm upper
                        (IStr (case branch_label of None \<Rightarrow> ''base'' | Some b \<Rightarrow> b @ ''@base''))
                        inclusive implicit_base) (\<lambda>revs.
                 if int (length (slice_to revs (- relative + (if inclusive then 1 else 0)))) \<noteq>
                      abs relative + (if inclusive then 1 else 0)
                 then raise (RevisionError (relative_message l relative))
                 else ok (slice_to revs (- relative + (if inclusive then 1 else 0))))
           | None \<Rightarrow> iterate_revisions_impl n rm upper lower inclusive implicit_base))"

text \<open>The ids of the revisions that a range iteration yields, in order.\<close>

definition yielded_ids :: "RevisionMap \<Rightarrow> (error + nat list) option \<Rightarrow> (error + string list) option" where
  "yielded_ids rm res = map_option (map_sum id (map (\<lambda>r. revision (objs rm ! r)))) res"

text \<open>
  A caller that builds the map from the producer's output and consumes a range iteration
  on it: the ids yielded, or the exception of the build or of the iteration.
\<close>

definition iterate_built ::
  "nat \<Rightarrow> Revision list \<Rightarrow> ident \<Rightarrow> ident \<Rightarrow> bool \<Rightarrow> bool \<Rightarrow> (error + string list) option" where
  "iterate_built n revs upper lower implicit_base inclusive =
     (case revision_map n revs of
        None \<Rightarrow> None
      | Some (Inl (e, ws)) \<Rightarrow> raise e
      | Some (Inr (rm, ws)) \<Rightarrow>
          yielded_ids rm (iterate_revisions n rm upper lower implicit_base inclusive))"

section \<open>Producers used in the statements\<close>



text \<open>
  A producer and the map built from it, for prefix resolution: four ids that start
  with \<open>abc\<close>.
\<close>

definition abc_revs :: "Revision list" where
  "abc_revs =
     [Revision_init ''abc123'' PNone PNone, Revision_init ''abc456'' (PStr ''abc123'') PNone,
      Revision_init ''abc789'' (PStr ''abc456'') PNone,
      Revision_init ''abcdef'' (PStr ''abc789'') PNone]"

definition abc_map :: RevisionMap where
  "abc_map =
     \<lparr>objs =
        [\<lparr>revision = ''abc123'', down_revision = PNone, orig_branch_labels = [],
            branch_labels = {}, nextrev = [''abc456'']\<rparr>,
         \<lparr>revision = ''abc456'', down_revision = PStr ''abc123'', orig_branch_labels = [],
            branch_labels = {}, nextrev = [''abc789'']\<rparr>,
         \<lparr>revision = ''abc789'', down_revision = PStr ''abc456'', orig_branch_labels = [],
            branch_labels = {}, nextrev = [''abcdef'']\<rparr>,
         \<lparr>revision = ''abcdef'', down_revision = PStr ''abc789'', orig_branch_labels = [],
            branch_labels = {}, nextrev = []\<rparr>],
      rev_map =
        [(KStr ''abc123'', Some 0), (KStr ''abc456'', Some 1), (KStr ''abc789'', Some 2),
         (KStr ''abcdef'', Some 3), (KNone, None), (KTuple [], None)],
      heads = [''abcdef''], bases = [''abc123'']\<rparr>"

text \<open>
  A producer of one revision that carries a branch label, and the map built from it.
\<close>

definition abcrel_revs :: "Revision list" where
  "abcrel_revs = [Revision_init ''abc123'' PNone (PStr ''abcrel'')]"

definition abcrel_map :: RevisionMap where
  "abcrel_map =
     \<lparr>objs =
        [\<lparr>revision = ''abc123'', down_revision = PNone, orig_branch_labels = [''abcrel''],
            branch_labels = {''abcrel''}, nextrev = []\<rparr>],
      rev_map =
        [(KStr ''abc123'', Some 0), (KNone, None), (KTuple [], None), (KStr ''abcrel'', Some 0)],
      heads = [''abc123''], bases = [''abc123'']\<rparr>"

text \<open>
  A producer and the map built from it, for heads: a base \<open>a\<close> with two children, the
  heads \<open>x\<close> (carrying the branch label \<open>bx\<close>) and \<open>y\<close>.
\<close>

definition forked_revs :: "Revision list" where
  "forked_revs =
     [Revision_init ''a'' PNone PNone, Revision_init ''x'' (PStr ''a'') (PStr ''bx''),
      Revision_init ''y'' (PStr ''a'') PNone]"

definition forked_map :: RevisionMap where
  "forked_map =
     \<lparr>objs =
        [\<lparr>revision = ''a'', down_revision = PNone, orig_branch_labels = [],
            branch_labels = {}, nextrev = [''x'', ''y'']\<rparr>,
         \<lparr>revision = ''x'', down_revision = PStr ''a'', orig_branch_labels = [''bx''],
            branch_labels = {''bx''}, nextrev = []\<rparr>,
         \<lparr>revision = ''y'', down_revision = PStr ''a'', orig_branch_labels = [],
            branch_labels = {}, nextrev = []\<rparr>],
      rev_map =
        [(KStr ''a'', Some 0), (KStr ''x'', Some 1), (KStr ''y'', Some 2), (KNone, None),
         (KTuple [], None), (KStr ''bx'', Some 1)],
      heads = [''x'', ''y''], bases = [''a'']\<rparr>"

text \<open>
  A producer in which the id \<open>a\<close> occurs twice, and the map built from it (the second
  object with the id \<open>a\<close> replaces the first under the key \<open>a\<close>).
\<close>

definition dup_revs :: "Revision list" where
  "dup_revs =
     [Revision_init ''a'' PNone PNone, Revision_init ''a'' (PStr ''b'') PNone,
      Revision_init ''b'' PNone PNone, Revision_init ''c'' (PStr ''a'') PNone]"

definition dup_map :: RevisionMap where
  "dup_map =
     \<lparr>objs =
        [\<lparr>revision = ''a'', down_revision = PNone, orig_branch_labels = [],
            branch_labels = {}, nextrev = []\<rparr>,
         \<lparr>revision = ''a'', down_revision = PStr ''b'', orig_branch_labels = [],
            branch_labels = {}, nextrev = [''c'']\<rparr>,
         \<lparr>revision = ''b'', down_revision = PNone, orig_branch_labels = [],
            branch_labels = {}, nextrev = [''a'']\<rparr>,
         \<lparr>revision = ''c'', down_revision = PStr ''a'', orig_branch_labels = [],
            branch_labels = {}, nextrev = []\<rparr>],
      rev_map =
        [(KStr ''a'', Some 1), (KStr ''b'', Some 2), (KStr ''c'', Some 3), (KNone, None),
         (KTuple [], None)],
      heads = [''c''], bases = [''a'', ''b'']\<rparr>"

section \<open>Notions used in the statements and proofs\<close>

text \<open>
  The known ids of a map: its string keys, which are the revision ids and the branch
  labels registered as aliases, in the order of the dictionary.
\<close>

fun string_keys :: "key list \<Rightarrow> string list" where
  "string_keys [] = []"
| "string_keys (KStr x # ks) = x # string_keys ks"
| "string_keys (KNone # ks) = string_keys ks"
| "string_keys (KTuple t # ks) = string_keys ks"

definition known_ids :: "RevisionMap \<Rightarrow> string list" where
  "known_ids rm = string_keys (map fst (rev_map rm))"

text \<open>
  What a build establishes for the dictionary: a string key refers to an object, and the
  only other keys are \<open>None\<close> and \<open>()\<close>, with the value \<open>None\<close>.
\<close>

definition wf_entry :: "nat \<Rightarrow> key \<times> nat option \<Rightarrow> bool" where
  "wf_entry N e =
     (case fst e of
        KStr x \<Rightarrow> (\<exists>r. snd e = Some r \<and> r < N)
      | KNone \<Rightarrow> snd e = None
      | KTuple t \<Rightarrow> t = [] \<and> snd e = None)"

definition wf_dict :: "nat \<Rightarrow> dict \<Rightarrow> bool" where
  "wf_dict N d = (\<forall>e \<in> set d. wf_entry N e)"

text \<open>A revision as its constructor leaves it.\<close>

definition constructed :: "Revision \<Rightarrow> bool" where
  "constructed r = (\<exists>rid down labels. r = Revision_init rid down labels)"

text \<open>
  What the two loops of a build establish, for a producer with distinct ids: the
  dictionary after the first loop, the objects that carry branch labels, the edges
  (child id, parent id) of a set of objects, and the state of the second loop once the
  edges \<open>E\<close> are linked: every object is as produced but for its children, which are
  the children that \<open>E\<close> gives it, and the heads are the ids that are no parent in \<open>E\<close>.
\<close>

definition indexed :: "nat \<Rightarrow> Revision list \<Rightarrow> dict" where
  "indexed i rs = map (\<lambda>(j, r). (KStr (revision r), Some j)) (enumerate i rs)"

definition labelled :: "Revision list \<Rightarrow> nat list" where
  "labelled revs = map fst (filter (\<lambda>(j, r). branch_labels r \<noteq> {}) (enumerate 0 revs))"

definition edges_from :: "Revision list \<Rightarrow> nat set \<Rightarrow> (string \<times> string) set" where
  "edges_from revs I =
     {(revision (revs ! i), d) | i d. i \<in> I \<and> d \<in> set (down_revision_tuple (revs ! i))}"

definition linked :: "Revision list \<Rightarrow> (string \<times> string) set \<Rightarrow> link_state \<Rightarrow> bool" where
  "linked revs E st \<longleftrightarrow>
     length (ln_objs st) = length revs \<and>
     (\<forall>k < length revs.
        ln_objs st ! k = (revs ! k)\<lparr>nextrev := nextrev (ln_objs st ! k)\<rparr> \<and>
        set (nextrev (ln_objs st ! k)) = {c. (c, revision (revs ! k)) \<in> E} \<and>
        distinct (nextrev (ln_objs st ! k))) \<and>
     ln_heads st = filter (\<lambda>x. x \<notin> snd ` E) (map revision revs)"

text \<open>What label propagation changes: only the label sets, and they grow.\<close>

definition relabelled :: "Revision list \<Rightarrow> Revision list \<Rightarrow> bool" where
  "relabelled os os' \<longleftrightarrow>
     length os' = length os \<and>
     (\<forall>k < length os. os' ! k = (os ! k)\<lparr>branch_labels := branch_labels (os' ! k)\<rparr> \<and>
                       branch_labels (os ! k) \<subseteq> branch_labels (os' ! k))"

section \<open>Evaluating the model\<close>

lemmas model_defs =
  revision_map_def Revision_init_def is_base_def is_head_def is_branch_point_def
  is_merge_point_def down_revision_tuple_def add_nextrev_def oset_add_def oset_discard_def
  dict_has_def iterate_revisions_def iterate_revisions_impl_def lowers_of_def total_space_of_def
  get_ancestor_nodes_def get_descendant_nodes_def iterate_related_revisions_def
  get_base_revisions_def rbind_def yielded_ids_def iterate_built_def



lemma rbind_simps [simp]:
  "rbind (ok v) f = f v" "rbind (raise e) f = raise e" "rbind None f = None"
  by (simp_all add: rbind_def)

lemma relative_destination_head [simp]: "relative_destination ''head'' = None"
  by (simp add: relative_destination_def)

lemma relative_destination_base [simp]: "relative_destination ''base'' = None"
  by (simp add: relative_destination_def)

section \<open>A linear chain from head to base\<close>




section \<open>Two arms converging at a merge point\<close>




section \<open>A parent id that is not in the map\<close>

text \<open>
  Claim C2. The claim has a build warn about a parent id that is absent, leave the edge
  unlinked and complete. The build of the single revision \<open>b\<close> with the absent parent
  \<open>a\<close> emits the warning and then reads \<open>map_[downrev]\<close>: it ends in a \<open>KeyError\<close>,
  whatever the fuel.
\<close>

theorem C2_dangling_parent_aborts_build:
  "revision_map n [Revision_init ''b'' (PStr ''a'') PNone]
     = Some (Inl (KeyError (KStr ''a''), [NotPresent (PStr ''a'') ''b'']))"
  by (simp add: model_defs)

section \<open>An exclusive range down to the base\<close>








section \<open>The dictionary of a built map\<close>

lemma set_dict_set: "set (dict_set d k v) \<subseteq> insert (k, v) (set d)"
  by (induction d k v rule: dict_set.induct) auto

lemma wf_dict_set: "wf_dict N d \<Longrightarrow> wf_entry N (k, v) \<Longrightarrow> wf_dict N (dict_set d k v)"
  using set_dict_set [of d k v] by (auto simp: wf_dict_def)

lemma index_revisions_wf:
  "wf_dict N (ix_map st) \<Longrightarrow> i + length rs \<le> N \<Longrightarrow> (\<forall>r \<in> set (ix_labelled st). r < N)
   \<Longrightarrow> wf_dict N (ix_map (index_revisions i rs st)) \<and> (\<forall>r \<in> set (ix_labelled (index_revisions i rs st)). r < N)"
proof (induction i rs st rule: index_revisions.induct)
  case (1 i st)
  then show ?case by simp
next
  case (2 i r rs st)
  show ?case
    unfolding index_revisions.simps
    apply (rule "2.IH")
    using "2.prems" by (auto intro!: wf_dict_set simp: wf_entry_def)
qed

lemma link_downrevs_length:
  "link_downrevs m i ds st = Inr st' \<Longrightarrow> length (ln_objs st') = length (ln_objs st)"
  by (induction m i ds st rule: link_downrevs.induct) (auto simp: Let_def split: option.splits)

lemma link_revisions_length:
  "link_revisions m vs st = Inr st' \<Longrightarrow> length (ln_objs st') = length (ln_objs st)"
  by (induction m vs st rule: link_revisions.induct) (auto split: sum.splits dest: link_downrevs_length)

lemma register_labels_wf:
  "register_labels os m r ls = Inr m' \<Longrightarrow> wf_dict N m \<Longrightarrow> r < N \<Longrightarrow> wf_dict N m'"
proof (induction os m r ls rule: register_labels.induct)
  case (1 os m r)
  then show ?case by simp
next
  case (2 os m r branch_label ls)
  from "2.prems"(1) have none: "map_of m (KStr branch_label) = None"
    and rest: "register_labels os (dict_set m (KStr branch_label) (Some r)) r ls = Inr m'"
    by (auto split: option.splits)
  have "wf_dict N (dict_set m (KStr branch_label) (Some r))"
    using "2.prems"(2,3) by (intro wf_dict_set) (auto simp: wf_entry_def)
  from "2.IH" [OF none rest this "2.prems"(3)] show ?case .
qed

lemma length_update_labels [simp]: "length (update_labels os p r) = length os"
  by (simp add: update_labels_def)

lemma length_fold_update_labels [simp]:
  "length (fold (\<lambda>node os'. update_labels os' node r) nodes os) = length os"
  by (induction nodes arbitrary: os) auto

lemma walk_back_length:
  "walk_back n os m r p = Some (Inr os') \<Longrightarrow> length os' = length os"
  by (induction n os m r p rule: walk_back.induct) (auto split: if_splits option.splits)

lemma add_branches_wf:
  assumes "add_branches n os m r = Some (Inr (os', m'))" "wf_dict N m" "r < N"
  shows "wf_dict N m' \<and> length os' = length os"
  using assms
  by (auto simp: add_branches_def split: if_splits sum.splits option.splits
           dest: register_labels_wf walk_back_length)

lemma add_all_branches_wf:
  "add_all_branches n os m rs = Some (Inr (os', m')) \<Longrightarrow> wf_dict N m \<Longrightarrow> \<forall>r \<in> set rs. r < N
   \<Longrightarrow> wf_dict N m' \<and> length os' = length os"
proof (induction n os m rs rule: add_all_branches.induct)
  case (1 n os m)
  then show ?case by simp
next
  case (2 n os m r rs)
  from "2.prems"(1) obtain os1 m1 where s: "add_branches n os m r = Some (Inr (os1, m1))"
    and rest: "add_all_branches n os1 m1 rs = Some (Inr (os', m'))"
    by (auto split: option.splits sum.splits)
  from add_branches_wf [OF s "2.prems"(2)] "2.prems"(3) have w: "wf_dict N m1" "length os1 = length os" by auto
  from "2.IH" [OF s refl refl rest w(1)] "2.prems"(3) w(2) show ?case by auto
qed

lemma revision_map_wf:
  assumes "revision_map n revs = Some (Inr (rm, ws))"
  shows "wf_dict (length (objs rm)) (rev_map rm) \<and> length (objs rm) = length revs"
proof -
  define ix where "ix = index_revisions 0 revs
                 \<lparr> ix_map = [], ix_heads = [], ix_bases = [], ix_labelled = [], ix_warnings = [] \<rparr>"
  have ixwf: "wf_dict (length revs) (ix_map ix)" "\<forall>r \<in> set (ix_labelled ix). r < length revs"
    using index_revisions_wf [of "length revs" "\<lparr> ix_map = [], ix_heads = [], ix_bases = [], ix_labelled = [], ix_warnings = [] \<rparr>" 0 revs]
    by (auto simp: ix_def wf_dict_def)
  from assms obtain ln where ln: "link_revisions (ix_map ix) (map snd (ix_map ix))
                \<lparr> ln_objs = revs, ln_heads = ix_heads ix, ln_warnings = ix_warnings ix \<rparr> = Inr ln"
    and ab: "add_all_branches n (ln_objs ln)
                     (dict_set (dict_set (ix_map ix) KNone None) (KTuple []) None)
                     (ix_labelled ix) = Some (Inr (objs rm, rev_map rm))"
    by (auto simp: revision_map_def Let_def ix_def [symmetric] split: sum.splits option.splits)
  have len: "length (ln_objs ln) = length revs" using link_revisions_length [OF ln] by simp
  have "wf_dict (length revs) (dict_set (dict_set (ix_map ix) KNone None) (KTuple []) None)"
    using ixwf(1) by (auto intro!: wf_dict_set simp: wf_entry_def)
  from add_all_branches_wf [OF ab this ixwf(2)] len show ?thesis by simp
qed

section \<open>Resolving a bare id by prefix\<close>

lemma string_keys_set: "x \<in> set (string_keys ks) \<longleftrightarrow> KStr x \<in> set ks"
  by (induction ks rule: string_keys.induct) auto

lemma partial_lookup_wf:
  "\<forall>k \<in> set ks. \<forall>t. k = KTuple t \<longrightarrow> t = [] \<Longrightarrow>
   partial_lookup ks (Some s) = Inr (filter (\<lambda>x. x \<noteq> [] \<and> prefix s x) (string_keys ks))"
  by (induction ks rule: string_keys.induct) auto

lemma wf_dict_tuple_keys: "wf_dict N d \<Longrightarrow> \<forall>k \<in> set (map fst d). \<forall>t. k = KTuple t \<longrightarrow> t = []"
  by (auto simp: wf_dict_def wf_entry_def split: key.splits)

lemma wf_dict_lookup:
  assumes "wf_dict N d" "x \<in> set (string_keys (map fst d))"
  shows "\<exists>r. r < N \<and> map_of d (KStr x) = Some (Some r)"
proof -
  from assms(2) have "KStr x \<in> fst ` set d" by (simp add: string_keys_set)
  then obtain v where v: "map_of d (KStr x) = Some v"
    by (metis domD domI dom_map_of_conv_image_fst)
  then have "(KStr x, v) \<in> set d" by (rule map_of_SomeD)
  with assms(1) have "wf_entry N (KStr x, v)" by (auto simp: wf_dict_def)
  then show ?thesis using v by (auto simp: wf_entry_def)
qed

lemma candidates_nonempty_filter:
  assumes "map_of d (KStr s) = None"
  shows "filter (\<lambda>x. x \<noteq> [] \<and> prefix s x) (string_keys (map fst d)) = filter (prefix s) (string_keys (map fst d))"
proof (rule filter_cong [OF refl])
  fix x assume x: "x \<in> set (string_keys (map fst d))"
  have "\<not> (x = [] \<and> prefix s x)"
  proof
    assume "x = [] \<and> prefix s x"
    then have "s = x" by auto
    with x have "KStr s \<in> fst ` set d" by (simp add: string_keys_set)
    with assms show False by (metis domIff dom_map_of_conv_image_fst)
  qed
  then show "(x \<noteq> [] \<and> prefix s x) = prefix s x" by auto
qed

lemma revision_for_ident_bare:
  assumes wf: "wf_dict N (rev_map rm)" and nokey: "map_of (rev_map rm) (KStr s) = None"
  shows "revision_for_ident (Suc n) rm (Some s) None =
     (let revs = filter (prefix s) (known_ids rm) in
      if revs = [] then raise (ResolutionError (no_such_message s))
      else if length revs > 1 then raise (ResolutionError (multiple_message s revs))
      else (case map_of (rev_map rm) (KStr (hd revs)) of
                          None \<Rightarrow> raise (KeyError (KStr (hd revs)))
                        | Some v \<Rightarrow> ok v))"
  using nokey partial_lookup_wf [OF wf_dict_tuple_keys [OF wf], of s]
    candidates_nonempty_filter [OF nokey]
  by (simp add: known_ids_def Let_def split: option.splits)

text \<open>
  Claim C6, as stated, fails when "known ids" are the revision ids: the branch labels are
  keys of the same dictionary and the partial lookup runs over all its keys. On the map of
  the one revision \<open>abc123\<close> with the branch label \<open>abcrel\<close>, exactly one revision id
  starts with \<open>abc\<close>, and resolving \<open>abc\<close> raises the error of several matches.
\<close>

theorem C6_prefix_resolution_counterexample:
  "revision_map 2 abcrel_revs = Some (Inr (abcrel_map, [])) \<and>
   filter (prefix ''abc'') (map revision (objs abcrel_map)) = [''abc123''] \<and>
   revision_for_ident 1 abcrel_map (Some ''abc'') None
     = raise (ResolutionError
         (''Multiple revisions start with '' @ [CHR 0x27] @ ''abc'' @ [CHR 0x27] @ '': '' @
          [CHR 0x27] @ ''abc123'' @ [CHR 0x27] @ '', '' @
          [CHR 0x27] @ ''abcrel'' @ [CHR 0x27] @ ''...''))"
  by (simp add: abcrel_revs_def abcrel_map_def model_defs add_branches_def update_labels_def
        multiple_message_def quoted_def eval_nat_numeral)

text \<open>
  Claim C6, amended. On a built map, resolving a bare string \<open>s\<close> that is not a key of
  the map looks for the string keys of the map, which are the revision ids and the branch
  labels registered as aliases, that start with \<open>s\<close>. With no such key a
  \<open>ResolutionError\<close> is raised; with exactly one, the revision it refers to is returned;
  with more than one, a \<open>ResolutionError\<close> is raised whose message has the requested
  string in single quotes, then the first three candidates at most, each in single quotes
  and separated by a comma and a space, and a trailing \<open>...\<close>.
\<close>

theorem C6_prefix_resolution:
  assumes built: "revision_map k revs = Some (Inr (rm, ws))"
    and nokey: "map_of (rev_map rm) (KStr s) = None"
  shows "(filter (prefix s) (known_ids rm) = [] \<longrightarrow>
            revision_for_ident (Suc n) rm (Some s) None
              = raise (ResolutionError
                  (''No such revision or branch '' @ [CHR 0x27] @ s @ [CHR 0x27]))) \<and>
         (\<forall>x. filter (prefix s) (known_ids rm) = [x] \<longrightarrow>
            (\<exists>r. r < length (objs rm) \<and> map_of (rev_map rm) (KStr x) = Some (Some r) \<and>
                 revision_for_ident (Suc n) rm (Some s) None = ok (Some r))) \<and>
         (length (filter (prefix s) (known_ids rm)) > 1 \<longrightarrow>
            revision_for_ident (Suc n) rm (Some s) None
              = raise (ResolutionError
                  (''Multiple revisions start with '' @ [CHR 0x27] @ s @ [CHR 0x27] @ '': '' @
                   join '', ''
                     (map (\<lambda>r. [CHR 0x27] @ r @ [CHR 0x27])
                        (take 3 (filter (prefix s) (known_ids rm)))) @ ''...'')))"
proof -
  from revision_map_wf [OF built] have wf: "wf_dict (length (objs rm)) (rev_map rm)" by blast
  note eq = revision_for_ident_bare [OF wf nokey, of n]
  have one: "\<exists>r. r < length (objs rm) \<and> map_of (rev_map rm) (KStr x) = Some (Some r) \<and>
                 revision_for_ident (Suc n) rm (Some s) None = ok (Some r)"
    if x: "filter (prefix s) (known_ids rm) = [x]" for x
  proof -
    have "x \<in> set (filter (prefix s) (known_ids rm))" using x by simp
    then have "x \<in> set (string_keys (map fst (rev_map rm)))" by (simp add: known_ids_def)
    from wf_dict_lookup [OF wf this] obtain r where
      "r < length (objs rm)" "map_of (rev_map rm) (KStr x) = Some (Some r)" by auto
    then show ?thesis using eq x by (auto simp: Let_def)
  qed
  show ?thesis using eq one
    by (auto simp: Let_def no_such_message_def multiple_message_def quoted_def [abs_def])
qed


theorem C6_prefix_resolution_witness:
  "revision_map 0 abc_revs = Some (Inr (abc_map, [])) \<and>
   revision_for_ident 1 abc_map (Some ''xyz'') None
     = raise (ResolutionError
         (''No such revision or branch '' @ [CHR 0x27] @ ''xyz'' @ [CHR 0x27])) \<and>
   revision_for_ident 1 abc_map (Some ''abc1'') None = ok (Some 0) \<and>
   revision_for_ident 1 abc_map (Some ''abc'') None
     = raise (ResolutionError
         (''Multiple revisions start with '' @ [CHR 0x27] @ ''abc'' @ [CHR 0x27] @ '': '' @
          [CHR 0x27] @ ''abc123'' @ [CHR 0x27] @ '', '' @
          [CHR 0x27] @ ''abc456'' @ [CHR 0x27] @ '', '' @
          [CHR 0x27] @ ''abc789'' @ [CHR 0x27] @ ''...''))"
proof -
  have b: "revision_map 0 abc_revs = Some (Inr (abc_map, []))"
    by (simp add: abc_revs_def abc_map_def model_defs)
  have ids: "known_ids abc_map = [''abc123'', ''abc456'', ''abc789'', ''abcdef'']"
    by (simp add: known_ids_def abc_map_def)
  have m: "map_of (rev_map abc_map) (KStr ''abc123'') = Some (Some 0)"
    by (simp add: abc_map_def)
  from C6_prefix_resolution [OF b, of "''xyz''" 0] C6_prefix_resolution [OF b, of "''abc1''" 0]
    C6_prefix_resolution [OF b, of "''abc''" 0]
  show ?thesis
    using b m by (simp add: ids) (simp add: abc_map_def)
qed

section \<open>The current head\<close>







section \<open>A lower bound that is not an ancestor\<close>




section \<open>The build of a producer with distinct ids\<close>

lemma dict_set_absent: "k \<notin> fst ` set d \<Longrightarrow> dict_set d k v = d @ [(k, v)]"
  by (induction d k v rule: dict_set.induct) auto

lemma map_of_dict_set: "map_of (dict_set d k v) = (map_of d)(k \<mapsto> v)"
  by (induction d k v rule: dict_set.induct) (auto simp: fun_upd_twist)

lemma index_revisions_distinct:
  assumes "distinct (map revision rs)" "KStr ` revision ` set rs \<inter> fst ` set (ix_map st) = {}"
    "revision ` set rs \<inter> set (ix_heads st) = {}"
  shows "ix_map (index_revisions i rs st) = ix_map st @ indexed i rs \<and>
         ix_heads (index_revisions i rs st) = ix_heads st @ map revision rs \<and>
         ix_bases (index_revisions i rs st) = ix_bases st @ map revision (filter is_base rs) \<and>
         ix_labelled (index_revisions i rs st)
           = ix_labelled st @ map fst (filter (\<lambda>(j, r). branch_labels r \<noteq> {}) (enumerate i rs)) \<and>
         ix_warnings (index_revisions i rs st) = ix_warnings st"
  using assms
proof (induction i rs st rule: index_revisions.induct)
  case (1 i st)
  then show ?case by (simp add: indexed_def)
next
  case (2 i r rs st)
  let ?st' = "\<lparr> ix_map = dict_set (ix_map st) (KStr (revision r)) (Some i),
         ix_heads = oset_add (ix_heads st) (revision r),
         ix_bases = (if is_base r then ix_bases st @ [revision r] else ix_bases st),
         ix_labelled = (if branch_labels r \<noteq> {} then ix_labelled st @ [i] else ix_labelled st),
         ix_warnings =
           (if dict_has (ix_map st) (KStr (revision r))
            then ix_warnings st @ [PresentMoreThanOnce (revision r)]
            else ix_warnings st) \<rparr>"
  have absent: "KStr (revision r) \<notin> fst ` set (ix_map st)" "revision r \<notin> set (ix_heads st)"
    using "2.prems"(2,3) by auto
  have d: "distinct (map revision rs)" using "2.prems"(1) by simp
  have k: "KStr ` revision ` set rs \<inter> fst ` set (ix_map ?st') = {}"
    using "2.prems"(1,2) absent by (auto simp: dict_set_absent)
  have hh: "revision ` set rs \<inter> set (ix_heads ?st') = {}"
    using "2.prems"(1,3) absent by (auto simp: oset_add_def)
  from "2.IH" [OF d k hh] show ?case
    unfolding index_revisions.simps
    using absent
    by (simp add: dict_set_absent oset_add_def dict_has_def map_of_eq_None_iff indexed_def)
qed


lemma map_of_indexed_Some:
  "map_of (indexed i rs) (KStr x) = Some v \<Longrightarrow> \<exists>j<length rs. v = Some (i + j) \<and> revision (rs ! j) = x"
proof (induction rs arbitrary: i)
  case Nil
  then show ?case by (simp add: indexed_def)
next
  case (Cons r rs)
  show ?case
  proof (cases "revision r = x")
    case True
    with Cons.prems have "v = Some i" by (simp add: indexed_def)
    with True show ?thesis by (intro exI [of _ 0]) simp
  next
    case False
    with Cons.prems have "map_of (indexed (Suc i) rs) (KStr x) = Some v" by (simp add: indexed_def)
    from Cons.IH [OF this] obtain j where "j < length rs" "v = Some (Suc i + j)" "revision (rs ! j) = x"
      by auto
    then show ?thesis by (intro exI [of _ "Suc j"]) simp
  qed
qed

lemma map_of_indexed_None:
  "map_of (indexed i rs) (KStr x) = None \<longleftrightarrow> x \<notin> revision ` set rs"
  by (induction rs arbitrary: i) (auto simp: indexed_def)

lemma map_snd_indexed: "map snd (indexed i rs) = map Some [i..<i + length rs]"
  by (induction rs arbitrary: i) (auto simp: indexed_def upt_rec)

lemma linked_fields:
  assumes "linked revs E st" "k < length revs"
  shows "revision (ln_objs st ! k) = revision (revs ! k)"
    "down_revision (ln_objs st ! k) = down_revision (revs ! k)"
    "down_revision_tuple (ln_objs st ! k) = down_revision_tuple (revs ! k)"
proof -
  from assms have e: "ln_objs st ! k = (revs ! k)\<lparr>nextrev := nextrev (ln_objs st ! k)\<rparr>"
    by (simp add: linked_def)
  show "revision (ln_objs st ! k) = revision (revs ! k)" by (subst e) simp
  show "down_revision (ln_objs st ! k) = down_revision (revs ! k)" by (subst e) simp
  then show "down_revision_tuple (ln_objs st ! k) = down_revision_tuple (revs ! k)"
    by (simp add: down_revision_tuple_def)
qed

lemma linked_step:
  assumes l: "linked revs E st" and d: "distinct (map revision revs)"
    and i: "i < length revs" and j: "j < length revs" and rj: "revision (revs ! j) = downrev"
  shows "linked revs (insert (revision (revs ! i), downrev) E)
           \<lparr> ln_objs = (ln_objs st)[j := add_nextrev (ln_objs st ! j) (revision (ln_objs st ! i))],
             ln_heads = oset_discard (ln_heads st) downrev,
             ln_warnings = ws \<rparr>"
proof -
  have ri: "revision (ln_objs st ! i) = revision (revs ! i)" by (rule linked_fields [OF l i])
  have len: "length (ln_objs st) = length revs" using l by (simp add: linked_def)
  have other: "revision (revs ! k) \<noteq> downrev" if "k < length revs" "k \<noteq> j" for k
    using d that j rj by (auto simp: distinct_conv_nth)
  have obj: "ln_objs st ! k = (revs ! k)\<lparr>nextrev := nextrev (ln_objs st ! k)\<rparr>"
    and nx: "set (nextrev (ln_objs st ! k)) = {c. (c, revision (revs ! k)) \<in> E}"
    and dn: "distinct (nextrev (ln_objs st ! k))"
    if "k < length revs" for k
    using l that by (simp_all add: linked_def)
  have hd: "ln_heads st = filter (\<lambda>x. x \<notin> snd ` E) (map revision revs)"
    using l by (simp add: linked_def)
  show ?thesis
    unfolding linked_def
  proof (intro conjI allI impI)
    show "length (ln_objs \<lparr> ln_objs = (ln_objs st)[j := add_nextrev (ln_objs st ! j) (revision (ln_objs st ! i))],
             ln_heads = oset_discard (ln_heads st) downrev, ln_warnings = ws \<rparr>) = length revs"
      using len by simp
  next
    fix k assume k: "k < length revs"
    show "ln_objs \<lparr> ln_objs = (ln_objs st)[j := add_nextrev (ln_objs st ! j) (revision (ln_objs st ! i))],
             ln_heads = oset_discard (ln_heads st) downrev, ln_warnings = ws \<rparr> ! k
          = (revs ! k)\<lparr>nextrev := nextrev (ln_objs \<lparr> ln_objs = (ln_objs st)[j := add_nextrev (ln_objs st ! j) (revision (ln_objs st ! i))],
             ln_heads = oset_discard (ln_heads st) downrev, ln_warnings = ws \<rparr> ! k)\<rparr>"
    proof (cases "k = j")
      case True
      then show ?thesis using len j obj [OF j] by (simp add: add_nextrev_def) (metis Revision.surjective Revision.update_convs(5))
    next
      case False
      then show ?thesis using obj [OF k] by simp
    qed
    show "set (nextrev (ln_objs \<lparr> ln_objs = (ln_objs st)[j := add_nextrev (ln_objs st ! j) (revision (ln_objs st ! i))],
             ln_heads = oset_discard (ln_heads st) downrev, ln_warnings = ws \<rparr> ! k))
          = {c. (c, revision (revs ! k)) \<in> insert (revision (revs ! i), downrev) E}"
    proof (cases "k = j")
      case True
      then show ?thesis using len j nx [OF j] rj ri by (auto simp: add_nextrev_def)
    next
      case False
      then show ?thesis using nx [OF k] other [OF k False] by auto
    qed
    show "distinct (nextrev (ln_objs \<lparr> ln_objs = (ln_objs st)[j := add_nextrev (ln_objs st ! j) (revision (ln_objs st ! i))],
             ln_heads = oset_discard (ln_heads st) downrev, ln_warnings = ws \<rparr> ! k))"
    proof (cases "k = j")
      case True
      then show ?thesis using len j dn [OF j] by (auto simp: add_nextrev_def)
    next
      case False
      then show ?thesis using dn [OF k] by simp
    qed
  next
    show "ln_heads \<lparr> ln_objs = (ln_objs st)[j := add_nextrev (ln_objs st ! j) (revision (ln_objs st ! i))],
             ln_heads = oset_discard (ln_heads st) downrev, ln_warnings = ws \<rparr>
          = filter (\<lambda>x. x \<notin> snd ` insert (revision (revs ! i), downrev) E) (map revision revs)"
      by (auto simp: hd oset_discard_def intro: filter_cong)
  qed
qed

lemma link_downrevs_linked:
  assumes d: "distinct (map revision revs)" and i: "i < length revs"
  shows "linked revs E st \<Longrightarrow> link_downrevs (indexed 0 revs) i ds st = Inr st' \<Longrightarrow>
         linked revs (E \<union> Pair (revision (revs ! i)) ` set ds) st' \<and>
         ln_warnings st' = ln_warnings st \<and> set ds \<subseteq> revision ` set revs"
proof (induction ds arbitrary: st E)
  case Nil
  then show ?case by simp
next
  case (Cons downrev ds)
  show ?case
  proof (cases "map_of (indexed 0 revs) (KStr downrev)")
    case None
    with Cons.prems(2) show ?thesis by (simp add: Let_def)
  next
    case (Some v)
    from map_of_indexed_Some [OF Some] obtain j where j: "j < length revs" "v = Some j"
      "revision (revs ! j) = downrev" by auto
    let ?st1 = "\<lparr> ln_objs = (ln_objs st)[j := add_nextrev (ln_objs st ! j) (revision (ln_objs st ! i))],
                 ln_heads = oset_discard (ln_heads st) downrev,
                 ln_warnings = ln_warnings st \<rparr>"
    have has: "dict_has (indexed 0 revs) (KStr downrev)" using Some by (simp add: dict_has_def)
    from Cons.prems(2) Some j(2) has
    have rest: "link_downrevs (indexed 0 revs) i ds ?st1 = Inr st'" by (simp add: Let_def)
    have l1: "linked revs (insert (revision (revs ! i), downrev) E) ?st1"
      by (rule linked_step [OF Cons.prems(1) d i j(1) j(3)])
    from Cons.IH [OF l1 rest] j(1,3) show ?thesis by auto
  qed
qed




lemma edges_from_insert:
  "edges_from revs (insert i I) = edges_from revs I \<union> Pair (revision (revs ! i)) ` set (down_revision_tuple (revs ! i))"
  by (auto simp: edges_from_def)

lemma link_revisions_linked:
  assumes d: "distinct (map revision revs)"
  shows "linked revs E st \<Longrightarrow> set is \<subseteq> {..<length revs} \<Longrightarrow>
         link_revisions (indexed 0 revs) (map Some is) st = Inr st' \<Longrightarrow>
         linked revs (E \<union> edges_from revs (set is)) st' \<and> ln_warnings st' = ln_warnings st \<and>
         (\<forall>i \<in> set is. set (down_revision_tuple (revs ! i)) \<subseteq> revision ` set revs)"
proof (induction "is" arbitrary: st E)
  case Nil
  then show ?case by (simp add: edges_from_def)
next
  case (Cons i "is")
  from Cons.prems(2) have i: "i < length revs" and sub: "set is \<subseteq> {..<length revs}" by auto
  have dt: "down_revision_tuple (ln_objs st ! i) = down_revision_tuple (revs ! i)"
    by (rule linked_fields [OF Cons.prems(1) i])
  from Cons.prems(3) obtain st1 where
    s1: "link_downrevs (indexed 0 revs) i (down_revision_tuple (revs ! i)) st = Inr st1"
    and rest: "link_revisions (indexed 0 revs) (map Some is) st1 = Inr st'"
    by (auto simp: dt split: sum.splits)
  from link_downrevs_linked [OF d i Cons.prems(1) s1]
  have l1: "linked revs (E \<union> Pair (revision (revs ! i)) ` set (down_revision_tuple (revs ! i))) st1"
    and w1: "ln_warnings st1 = ln_warnings st"
    and p1: "set (down_revision_tuple (revs ! i)) \<subseteq> revision ` set revs" by auto
  from Cons.IH [OF l1 sub rest] w1 p1 show ?case
    by (simp add: edges_from_insert Un_assoc Un_commute [of "edges_from revs (set is)"])
qed


lemma tuple_rev_as_scalar_None:
  "(tuple_rev_as_scalar down = PNone) = (to_tuple (tuple_rev_as_scalar down) [] = [])"
  by (cases down) auto

lemma constructed_fields:
  assumes "constructed r"
  shows "nextrev r = []" "is_base r = (down_revision_tuple r = [])"
    "branch_labels r = set (orig_branch_labels r)"
  using assms tuple_rev_as_scalar_None
  by (auto simp: constructed_def Revision_init_def is_base_def down_revision_tuple_def)

lemma relabelled_refl: "relabelled os os"
  by (simp add: relabelled_def)

lemma relabelled_trans: "relabelled os os1 \<Longrightarrow> relabelled os1 os2 \<Longrightarrow> relabelled os os2"
  unfolding relabelled_def
  by (auto; metis (no_types, lifting) Revision.update_convs(4) Revision.surjective subset_trans)

lemma relabelled_update_labels: "relabelled os (update_labels os p r)"
  unfolding relabelled_def update_labels_def
proof (intro conjI allI impI)
  show "length (os[p := (os ! p)\<lparr>branch_labels := branch_labels (os ! p) \<union> branch_labels (os ! r)\<rparr>])
          = length os" by simp
next
  fix k assume k: "k < length os"
  show "os[p := (os ! p)\<lparr>branch_labels := branch_labels (os ! p) \<union> branch_labels (os ! r)\<rparr>] ! k
        = (os ! k)\<lparr>branch_labels := branch_labels
             (os[p := (os ! p)\<lparr>branch_labels := branch_labels (os ! p) \<union> branch_labels (os ! r)\<rparr>] ! k)\<rparr>"
    using k by (cases "k = p") simp_all
  show "branch_labels (os ! k) \<subseteq> branch_labels
             (os[p := (os ! p)\<lparr>branch_labels := branch_labels (os ! p) \<union> branch_labels (os ! r)\<rparr>] ! k)"
    using k by (cases "k = p") auto
qed

lemma relabelled_fold:
  "relabelled os (fold (\<lambda>node os'. update_labels os' node r) nodes os)"
proof (induction nodes arbitrary: os)
  case Nil
  then show ?case by (simp add: relabelled_refl)
next
  case (Cons a nodes)
  show ?case using relabelled_trans [OF relabelled_update_labels Cons.IH] by simp
qed

lemma relabelled_walk_back:
  "walk_back n os m r p = Some (Inr os') \<Longrightarrow> relabelled os os'"
proof (induction n os m r p arbitrary: os' rule: walk_back.induct)
  case (1 n os m r)
  then show ?case by (simp add: relabelled_refl)
next
  case (2 os m r p)
  then show ?case by simp
next
  case (3 n os m r p)
  show ?case
  proof (cases "is_branch_point (os ! p) \<or> is_merge_point (os ! p)")
    case True
    with "3.prems" show ?thesis by (simp add: relabelled_refl)
  next
    case False
    show ?thesis
    proof (cases "truthy (down_revision (os ! p))")
      case t: True
      from "3.prems" False t obtain v where v: "map_of m (key_of (down_revision (os ! p))) = Some v"
        and w: "walk_back n (update_labels os p r) m r v = Some (Inr os')"
        by (auto split: option.splits)
      from "3.IH" [OF False t v w] relabelled_update_labels show ?thesis
        by (rule relabelled_trans [rotated])
    next
      case f: False
      with "3.prems" False show ?thesis by (auto simp: relabelled_update_labels)
    qed
  qed
qed

lemma map_le_dict_set: "map_of m k = None \<Longrightarrow> map_of m \<subseteq>\<^sub>m map_of (dict_set m k v)"
  by (auto simp: map_of_dict_set map_le_def dom_def)

lemma register_labels_map_le:
  "register_labels os m r ls = Inr m' \<Longrightarrow> map_of m \<subseteq>\<^sub>m map_of m'"
proof (induction os m r ls rule: register_labels.induct)
  case (1 os m r)
  then show ?case by simp
next
  case (2 os m r branch_label ls)
  from "2.prems" have none: "map_of m (KStr branch_label) = None"
    and rest: "register_labels os (dict_set m (KStr branch_label) (Some r)) r ls = Inr m'"
    by (auto split: option.splits)
  from "2.IH" [OF none rest] map_le_dict_set [OF none] show ?case
    by (rule map_le_trans [rotated])
qed

lemma add_branches_frame:
  assumes "add_branches n os m r = Some (Inr (os', m'))"
  shows "relabelled os os' \<and> map_of m \<subseteq>\<^sub>m map_of m'"
proof (cases "branch_labels (os ! r) = {}")
  case True
  with assms show ?thesis by (simp add: add_branches_def relabelled_refl)
next
  case False
  with assms obtain nodes where
    reg: "register_labels os m r (orig_branch_labels (os ! r)) = Inr m'"
    and w: "walk_back n (fold (\<lambda>node os'. update_labels os' node r) nodes os) m' r (Some (last nodes))
             = Some (Inr os')"
    by (auto simp: add_branches_def split: sum.splits option.splits)
  from relabelled_trans [OF relabelled_fold relabelled_walk_back [OF w]]
    register_labels_map_le [OF reg] show ?thesis by simp
qed

lemma add_all_branches_frame:
  "add_all_branches n os m rs = Some (Inr (os', m')) \<Longrightarrow>
   relabelled os os' \<and> map_of m \<subseteq>\<^sub>m map_of m'"
proof (induction n os m rs rule: add_all_branches.induct)
  case (1 n os m)
  then show ?case by (simp add: relabelled_refl)
next
  case (2 n os m r rs)
  from "2.prems" obtain os1 m1 where s: "add_branches n os m r = Some (Inr (os1, m1))"
    and rest: "add_all_branches n os1 m1 rs = Some (Inr (os', m'))"
    by (auto split: option.splits sum.splits)
  from add_branches_frame [OF s] "2.IH" [OF s refl refl rest] show ?case
    by (auto intro: relabelled_trans map_le_trans)
qed

lemma keys_indexed: "fst ` set (indexed i rs) = KStr ` revision ` set rs"
  by (induction rs arbitrary: i) (auto simp: indexed_def)

lemma linked_initial:
  assumes "\<forall>r \<in> set revs. nextrev r = []"
  shows "linked revs {} \<lparr> ln_objs = revs, ln_heads = map revision revs, ln_warnings = ws \<rparr>"
  using assms by (auto simp: linked_def)

lemma revision_map_built:
  assumes built: "revision_map n revs = Some (Inr (rm, ws))"
    and d: "distinct (map revision revs)"
    and fresh: "\<forall>r \<in> set revs. nextrev r = []"
  obtains ln where
    "linked revs (edges_from revs {..<length revs}) ln"
    "ws = []" "heads rm = ln_heads ln"
    "bases rm = map revision (filter is_base revs)"
    "add_all_branches n (ln_objs ln) (indexed 0 revs @ [(KNone, None), (KTuple [], None)])
       (labelled revs) = Some (Inr (objs rm, rev_map rm))"
    "\<forall>r \<in> set revs. set (down_revision_tuple r) \<subseteq> revision ` set revs"
proof -
  define ix where "ix = index_revisions 0 revs
      \<lparr> ix_map = [], ix_heads = [], ix_bases = [], ix_labelled = [], ix_warnings = [] \<rparr>"
  have ix: "ix_map ix = indexed 0 revs" "ix_heads ix = map revision revs"
    "ix_bases ix = map revision (filter is_base revs)" "ix_labelled ix = labelled revs"
    "ix_warnings ix = []"
    using index_revisions_distinct [OF d, of
        "\<lparr> ix_map = [], ix_heads = [], ix_bases = [], ix_labelled = [], ix_warnings = [] \<rparr>" 0]
    by (simp_all add: ix_def labelled_def)
  have keys: "fst ` set (indexed 0 revs) = KStr ` revision ` set revs"
    by (rule keys_indexed)
  have ds: "dict_set (dict_set (indexed 0 revs) KNone None) (KTuple []) None
              = indexed 0 revs @ [(KNone, None), (KTuple [], None)]"
  proof -
    have a: "dict_set (indexed 0 revs) KNone None = indexed 0 revs @ [(KNone, None)]"
      using keys by (intro dict_set_absent) auto
    have b: "dict_set (indexed 0 revs @ [(KNone, None)]) (KTuple []) None
               = (indexed 0 revs @ [(KNone, None)]) @ [(KTuple [], None)]"
      using keys by (intro dict_set_absent) auto
    show ?thesis by (simp add: a b)
  qed
  from built obtain ln where
    ln: "link_revisions (indexed 0 revs) (map Some [0..<length revs])
           \<lparr> ln_objs = revs, ln_heads = map revision revs, ln_warnings = [] \<rparr> = Inr ln"
    and ab: "add_all_branches n (ln_objs ln) (indexed 0 revs @ [(KNone, None), (KTuple [], None)])
               (labelled revs) = Some (Inr (objs rm, rev_map rm))"
    and hb: "heads rm = ln_heads ln" "bases rm = map revision (filter is_base revs)"
      "ws = ln_warnings ln"
    by (auto simp: revision_map_def Let_def ix_def [symmetric] ix ds map_snd_indexed
             split: sum.splits option.splits)
  from link_revisions_linked [OF d linked_initial [OF fresh] _ ln]
  have l: "linked revs (edges_from revs {..<length revs}) ln" and w: "ln_warnings ln = []"
    and p: "\<forall>i < length revs. set (down_revision_tuple (revs ! i)) \<subseteq> revision ` set revs"
    by (auto simp: lessThan_atLeast0)
  from p have p': "\<forall>r \<in> set revs. set (down_revision_tuple r) \<subseteq> revision ` set revs"
    by (metis in_set_conv_nth)
  show thesis using that [OF l _ hb(1,2) ab p'] hb(3) w by simp
qed

lemma map_of_indexed_nth:
  assumes "distinct (map revision rs)" "j < length rs"
  shows "map_of (indexed i rs) (KStr (revision (rs ! j))) = Some (Some (i + j))"
proof -
  have "map_of (indexed i rs) (KStr (revision (rs ! j))) \<noteq> None"
    using assms(2) by (simp add: map_of_indexed_None)
  then obtain v where v: "map_of (indexed i rs) (KStr (revision (rs ! j))) = Some v" by auto
  from map_of_indexed_Some [OF v] obtain j' where j': "j' < length rs" "v = Some (i + j')"
    "revision (rs ! j') = revision (rs ! j)" by auto
  from assms j'(1,3) have "j' = j" by (auto simp: distinct_conv_nth)
  with v j'(2) show ?thesis by simp
qed

lemma map_filter_list_all2:
  "list_all2 (\<lambda>x y. f x = g y \<and> P x = Q y) xs ys \<Longrightarrow> map f (filter P xs) = map g (filter Q ys)"
  by (induction rule: list_all2_induct) auto



section \<open>Bases and heads after a build\<close>

text \<open>
  Claim C9, as stated, fails when an id occurs twice in the producer's output (the build
  warns and goes on). In \<open>dup_map\<close> the id \<open>a\<close> is in \<open>bases\<close> although the node of the
  map with the id \<open>a\<close> has the parent \<open>b\<close>; and the first object produced has the id
  \<open>a\<close> and no children although \<open>a\<close> is not in \<open>heads\<close>.
\<close>

theorem C9_duplicate_id_counterexample:
  "revision_map 0 dup_revs = Some (Inr (dup_map, [PresentMoreThanOnce ''a''])) \<and>
   bases dup_map = [''a'', ''b''] \<and>
   map_of (rev_map dup_map) (KStr ''a'') = Some (Some 1) \<and>
   down_revision_tuple (objs dup_map ! 1) = [''b''] \<and>
   heads dup_map = [''c''] \<and>
   revision (objs dup_map ! 0) = ''a'' \<and> nextrev (objs dup_map ! 0) = []"
  by (simp add: dup_revs_def dup_map_def model_defs)

text \<open>
  Claim C9, amended. After every build from a producer that yields freshly constructed
  revisions with pairwise distinct ids, the objects of the map are the objects produced,
  in construction order, each the node that its id refers to; \<open>bases\<close> is exactly the
  ids of the nodes with zero parents, in construction order, and \<open>heads\<close> is exactly the
  ids of the nodes with zero children, in construction order.
\<close>

theorem C9_bases_and_heads:
  assumes built: "revision_map n revs = Some (Inr (rm, ws))"
    and d: "distinct (map revision revs)"
    and c: "\<forall>r \<in> set revs. constructed r"
  shows "length (objs rm) = length revs \<and> map revision (objs rm) = map revision revs \<and>
         (\<forall>i < length (objs rm). map_of (rev_map rm) (KStr (revision (objs rm ! i))) = Some (Some i)) \<and>
         bases rm = map revision (filter (\<lambda>r. down_revision_tuple r = []) (objs rm)) \<and>
         heads rm = map revision (filter (\<lambda>r. nextrev r = []) (objs rm))"
proof -
  from c have fresh: "\<forall>r \<in> set revs. nextrev r = []" by (simp add: constructed_fields)
  from revision_map_built [OF built d fresh] obtain ln where
    l: "linked revs (edges_from revs {..<length revs}) ln"
    and hb: "heads rm = ln_heads ln" "bases rm = map revision (filter is_base revs)"
    and ab: "add_all_branches n (ln_objs ln) (indexed 0 revs @ [(KNone, None), (KTuple [], None)])
       (labelled revs) = Some (Inr (objs rm, rev_map rm))"
    by metis
  let ?E = "edges_from revs {..<length revs}"
  from add_all_branches_frame [OF ab]
  have rl: "relabelled (ln_objs ln) (objs rm)"
    and le: "map_of (indexed 0 revs @ [(KNone, None), (KTuple [], None)]) \<subseteq>\<^sub>m map_of (rev_map rm)"
    by auto
  have len_ln: "length (ln_objs ln) = length revs" using l by (simp add: linked_def)
  have len: "length (objs rm) = length revs" using rl len_ln by (simp add: relabelled_def)
  have ln_k: "ln_objs ln ! k = (revs ! k)\<lparr>nextrev := nextrev (ln_objs ln ! k)\<rparr>"
    and nx: "set (nextrev (ln_objs ln ! k)) = {c. (c, revision (revs ! k)) \<in> ?E}"
    if "k < length revs" for k using l that by (simp_all add: linked_def)
  have rm_k: "objs rm ! k = (ln_objs ln ! k)\<lparr>branch_labels := branch_labels (objs rm ! k)\<rparr>"
    if "k < length revs" for k using rl that len_ln by (simp add: relabelled_def)
  have f_rev: "revision (objs rm ! k) = revision (revs ! k)"
    and f_down: "down_revision_tuple (objs rm ! k) = down_revision_tuple (revs ! k)"
    and f_next: "nextrev (objs rm ! k) = nextrev (ln_objs ln ! k)"
    if "k < length revs" for k
  proof -
    show "revision (objs rm ! k) = revision (revs ! k)"
      by (subst rm_k [OF that], subst ln_k [OF that]) simp
    show "down_revision_tuple (objs rm ! k) = down_revision_tuple (revs ! k)"
      unfolding down_revision_tuple_def by (subst rm_k [OF that], subst ln_k [OF that]) simp
    show "nextrev (objs rm ! k) = nextrev (ln_objs ln ! k)"
      by (subst rm_k [OF that]) simp
  qed
  have revs_eq: "map revision (objs rm) = map revision revs"
    using len f_rev by (intro nth_equalityI) auto
  have lookup: "map_of (rev_map rm) (KStr (revision (objs rm ! i))) = Some (Some i)"
    if "i < length (objs rm)" for i
  proof -
    from that len have i: "i < length revs" by simp
    have "map_of (indexed 0 revs @ [(KNone, None), (KTuple [], None)]) (KStr (revision (revs ! i)))
            = Some (Some i)"
      using map_of_indexed_nth [OF d i, of 0] by (simp add: map_add_def)
    with le have "map_of (rev_map rm) (KStr (revision (revs ! i))) = Some (Some i)"
      by (auto simp: map_le_def dom_def)
    then show ?thesis by (simp add: f_rev [OF i])
  qed
  have "list_all2 (\<lambda>x y. revision x = revision y \<and> is_base x = (down_revision_tuple y = [])) revs (objs rm)"
    using len f_rev f_down c by (auto simp: list_all2_conv_all_nth constructed_fields)
  from map_filter_list_all2 [OF this] hb(2)
  have bases_eq: "bases rm = map revision (filter (\<lambda>r. down_revision_tuple r = []) (objs rm))"
    by simp
  have "heads rm = map revision (filter (\<lambda>r. revision r \<notin> snd ` ?E) revs)"
    using l hb(1) by (simp add: linked_def filter_map comp_def)
  also have "\<dots> = map revision (filter (\<lambda>r. nextrev r = []) (objs rm))"
  proof (rule map_filter_list_all2)
    show "list_all2 (\<lambda>x y. revision x = revision y \<and> (revision x \<notin> snd ` ?E) = (nextrev y = [])) revs (objs rm)"
      unfolding list_all2_conv_all_nth
    proof (intro conjI allI impI)
      show "length revs = length (objs rm)" using len by simp
    next
      fix k assume k: "k < length revs"
      show "revision (revs ! k) = revision (objs rm ! k)" using f_rev [OF k] by simp
      have "(nextrev (objs rm ! k) = []) = (set (nextrev (ln_objs ln ! k)) = {})"
        using f_next [OF k] by simp
      also have "\<dots> = (revision (revs ! k) \<notin> snd ` ?E)"
        unfolding nx [OF k] by force
      finally show "(revision (revs ! k) \<notin> snd ` ?E) = (nextrev (objs rm ! k) = [])" by simp
    qed
  qed
  finally have heads_eq: "heads rm = map revision (filter (\<lambda>r. nextrev r = []) (objs rm))" .
  from len revs_eq lookup bases_eq heads_eq show ?thesis by blast
qed

theorem C9_bases_and_heads_witness:
  "revision_map 2 forked_revs = Some (Inr (forked_map, [])) \<and>
   distinct (map revision forked_revs) \<and>
   bases forked_map = [''a''] \<and> heads forked_map = [''x'', ''y'']"
proof -
  have b: "revision_map 2 forked_revs = Some (Inr (forked_map, []))"
    by (simp add: forked_revs_def forked_map_def model_defs add_branches_def update_labels_def
          eval_nat_numeral)
  have d: "distinct (map revision forked_revs)"
    by (simp add: forked_revs_def Revision_init_def)
  have c: "\<forall>r \<in> set forked_revs. constructed r"
    by (auto simp: forked_revs_def constructed_def)
  from C9_bases_and_heads [OF b d c] b d show ?thesis
    by (simp add: forked_map_def down_revision_tuple_def)
qed

section \<open>The build of a producer without branch labels\<close>







section \<open>Relative upper bounds\<close>




end
